theory Spec2Isabelle
  imports Main
begin

section \<open>The environment of safeinput.c\<close>

text \<open>
  The library reads bytes from standard input with \<^verbatim>\<open>getchar_unlocked\<close>, writes
  diagnostics to standard error and allocates its string results with \<^verbatim>\<open>malloc\<close>.
  The state of the model is what these three touch:
  \<^item> \<open>stdin\<close>: the bytes not yet read; the empty list is end-of-stream;
  \<^item> \<open>stderr\<close>: the texts written so far, one entry per call of \<^verbatim>\<open>fputs\<close> or
    \<^verbatim>\<open>fprintf\<close>, oldest first;
  \<^item> \<open>malloc_ok\<close>: whether the allocator satisfies a request (each accessor calls it at
    most once).
\<close>

record world =
  stdin :: "char list"
  stderr :: "string list"
  malloc_ok :: bool

text \<open>
  A C \<^verbatim>\<open>int\<close> that holds the result of \<^verbatim>\<open>getchar_unlocked\<close>: a byte or the
  end-of-file marker. \<open>Unset\<close> is the value of \<^verbatim>\<open>int c;\<close> before its first assignment.
\<close>

datatype cint = Unset | Eof | Byte char

definition NL :: char where
  "NL = CHR 0x0A"

definition NUL :: char where
  "NUL = CHR 0x00"

definition EOF :: int where
  "EOF = - 1"

definition INPUT_BUFFER_SIZE :: nat where
  "INPUT_BUFFER_SIZE = 128"

definition CHAR_INPUT_BUFFER_SIZE :: nat where
  "CHAR_INPUT_BUFFER_SIZE = 4"

definition getchar_unlocked :: "world \<Rightarrow> cint \<times> world" where
  "getchar_unlocked s =
     (case stdin s of
        [] \<Rightarrow> (Eof, s)
      | x # xs \<Rightarrow> (Byte x, s\<lparr>stdin := xs\<rparr>))"

definition si_printError :: "string \<Rightarrow> world \<Rightarrow> world" where
  "si_printError msg s = s\<lparr>stderr := stderr s @ [msg]\<rparr>"

section \<open>The C library's integer conversions\<close>

text \<open>
  \<^verbatim>\<open>strtol\<close>, \<^verbatim>\<open>strtoul\<close>, \<^verbatim>\<open>strtoll\<close> and \<^verbatim>\<open>strtoull\<close> belong to the C library, not
  to safeinput.c. They are modelled after ISO C 7.22.1.4 for base 10 in the "C" locale:
  the subject sequence is optional white space, an optional sign and a non-empty run of
  decimal digits; \<^verbatim>\<open>endptr\<close> is left just behind the last digit, or at the start of the
  string when there is no digit; a value out of range is clamped and \<^verbatim>\<open>errno\<close> set to
  \<^verbatim>\<open>ERANGE\<close>. The integer widths are those of the LP64 data model (gcc on 64-bit Linux,
  x86-64 and AArch64): \<^verbatim>\<open>int\<close> has 32 bits, \<^verbatim>\<open>long\<close> and \<^verbatim>\<open>long long\<close> have 64.

  A pointer into the buffer is its offset. The string a buffer holds ends before its
  first NUL byte.
\<close>

definition INT_MIN :: int where
  "INT_MIN = - (2 ^ 31)"

definition INT_MAX :: int where
  "INT_MAX = 2 ^ 31 - 1"

definition UINT_MAX :: int where
  "UINT_MAX = 2 ^ 32 - 1"

definition LONG_MIN :: int where
  "LONG_MIN = - (2 ^ 63)"

definition LONG_MAX :: int where
  "LONG_MAX = 2 ^ 63 - 1"

definition ULONG_MAX :: int where
  "ULONG_MAX = 2 ^ 64 - 1"

definition LLONG_MIN :: int where
  "LLONG_MIN = - (2 ^ 63)"

definition LLONG_MAX :: int where
  "LLONG_MAX = 2 ^ 63 - 1"

definition ULLONG_MAX :: int where
  "ULLONG_MAX = 2 ^ 64 - 1"

definition c_str :: "char list \<Rightarrow> char list" where
  "c_str buf = takeWhile (\<lambda>x. x \<noteq> NUL) buf"

definition isspace :: "char \<Rightarrow> bool" where
  "isspace x = (x \<in> set [CHR 0x20, CHR 0x09, CHR 0x0A, CHR 0x0B, CHR 0x0C, CHR 0x0D])"

definition isdigit :: "char \<Rightarrow> bool" where
  "isdigit x = (x \<in> set ''0123456789'')"

definition digit_val :: "char \<Rightarrow> int" where
  "digit_val x = of_char x - 48"

definition digits_val :: "char list \<Rightarrow> int" where
  "digits_val ds = foldl (\<lambda>a d. 10 * a + digit_val d) 0 ds"

text \<open>
  The subject sequence of a string: the offset of its first digit, whether a minus sign
  precedes it, and its digits.
\<close>

definition subject :: "char list \<Rightarrow> nat \<times> bool \<times> char list" where
  "subject str =
     (let ws = length (takeWhile isspace str);
          r = drop ws str;
          neg = (case r of [] \<Rightarrow> False | x # _ \<Rightarrow> x = CHR ''-'');
          sgn = (case r of [] \<Rightarrow> 0 | x # _ \<Rightarrow> if x = CHR ''-'' \<or> x = CHR ''+'' then 1 else 0)
      in (ws + sgn, neg, takeWhile isdigit (drop sgn r)))"

text \<open>The results are the value, \<^verbatim>\<open>endptr\<close> and whether \<^verbatim>\<open>errno\<close> is \<^verbatim>\<open>ERANGE\<close>.\<close>

definition strto_signed :: "int \<Rightarrow> int \<Rightarrow> char list \<Rightarrow> int \<times> nat \<times> bool" where
  "strto_signed lo hi nptr =
     (case subject (c_str nptr) of
        (start, neg, ds) \<Rightarrow>
          if ds = [] then (0, 0, False)
          else
            let v = (if neg then - digits_val ds else digits_val ds) in
            if hi < v then (hi, start + length ds, True)
            else if v < lo then (lo, start + length ds, True)
            else (v, start + length ds, False))"

definition strto_unsigned :: "int \<Rightarrow> char list \<Rightarrow> int \<times> nat \<times> bool" where
  "strto_unsigned hi nptr =
     (case subject (c_str nptr) of
        (start, neg, ds) \<Rightarrow>
          if ds = [] then (0, 0, False)
          else
            let m = digits_val ds in
            if hi < m then (hi, start + length ds, True)
            else ((if neg then (- m) mod (hi + 1) else m), start + length ds, False))"

definition strtol :: "char list \<Rightarrow> int \<times> nat \<times> bool" where
  "strtol = strto_signed LONG_MIN LONG_MAX"

definition strtoll :: "char list \<Rightarrow> int \<times> nat \<times> bool" where
  "strtoll = strto_signed LLONG_MIN LLONG_MAX"

definition strtoul :: "char list \<Rightarrow> int \<times> nat \<times> bool" where
  "strtoul = strto_unsigned ULONG_MAX"

definition strtoull :: "char list \<Rightarrow> int \<times> nat \<times> bool" where
  "strtoull = strto_unsigned ULLONG_MAX"

text \<open>The cast \<^verbatim>\<open>(int)value\<close> of a \<^verbatim>\<open>long\<close>: gcc reduces modulo \<open>2 ^ 32\<close>.\<close>

definition int_of_long :: "int \<Rightarrow> int" where
  "int_of_long v = (v + 2 ^ 31) mod 2 ^ 32 - 2 ^ 31"

section \<open>The bounded line reader\<close>

text \<open>
  \<^verbatim>\<open>while ( ( c = getchar_unlocked() ) != '\n' && c != EOF ) ;\<close>
\<close>

function si_drainStdin :: "world \<Rightarrow> world" where
  "si_drainStdin s =
     (case getchar_unlocked s of
        (c, s') \<Rightarrow> if c \<noteq> Byte NL \<and> c \<noteq> Eof then si_drainStdin s' else s')"
  by pat_completeness auto
termination
  by (relation "measure (\<lambda>s. length (stdin s))")
     (auto simp: getchar_unlocked_def split: list.splits)

declare si_drainStdin.simps [simp del]

text \<open>
  The loop of \<^verbatim>\<open>si_readByte\<close>:
  \<^verbatim>\<open>for ( ; i < maxLen; i++ ) { c = getchar_unlocked();
       if ( c == '\n' || c == EOF ) break;  buf[i] = (char)c; }\<close>
  A byte other than the newline is stored and the loop goes on; the newline and \<open>EOF\<close>
  leave the loop. The result is the final \<open>i\<close>, \<open>c\<close>, buffer and state. The array is
  the list of its bytes. A store beyond its end is undefined in C (and leaves the list
  as it is); it does not happen when \<open>maxLen\<close> is at most the size of the array, which
  holds at every call site and is a hypothesis of the theorems on the buffer.
\<close>

function readLoop :: "nat \<Rightarrow> nat \<Rightarrow> cint \<Rightarrow> char list \<Rightarrow> world \<Rightarrow> nat \<times> cint \<times> char list \<times> world" where
  "readLoop i maxLen c buf s =
     (if i < maxLen then
        (case getchar_unlocked s of
           (Byte x, s') \<Rightarrow>
              if x = NL then (i, Byte x, buf, s')
              else readLoop (i + 1) maxLen (Byte x) (buf[i := x]) s'
         | (c', s') \<Rightarrow> (i, c', buf, s'))
      else (i, c, buf, s))"
  by pat_completeness auto
termination
  by (relation "measure (\<lambda>(i, maxLen, c, buf, s). maxLen - i)") auto

declare readLoop.simps [simp del]

text \<open>
  \<^verbatim>\<open>static inline int si_readByte ( char *buf, size_t maxLen, size_t *outLen )\<close>.
  The pointers are modelled by the objects they point to: \<open>buf\<close> is the caller's array
  and \<open>outLen\<close> the caller's variable before the call; the second and third components of
  the result are their contents after the call. Every call site passes the address of a
  local, so the two null tests of the guard always fail and only \<open>maxLen < 1\<close> is kept.
  The first component is the returned \<^verbatim>\<open>int\<close>: 0, 1 or \<open>EOF\<close>. A \<^verbatim>\<open>size_t\<close> is a
  natural number: the counts never exceed the capacity, at most 128 here, so no
  arithmetic on them wraps around.
\<close>

definition si_readByte :: "char list \<Rightarrow> nat \<Rightarrow> nat \<Rightarrow> world \<Rightarrow> int \<times> char list \<times> nat \<times> world" where
  "si_readByte buf maxLen outLen s =
     (if maxLen < 1 then (1, buf, outLen, s)
      else
        (case readLoop 0 maxLen Unset buf s of
           (i, c, buf', s') \<Rightarrow>
             if i = maxLen \<and> c \<noteq> Byte NL \<and> c \<noteq> Eof then
               (1, buf', i,
                si_printError ''Input exceeding buffer size. Try again.\<newline>'' (si_drainStdin s'))
             else if c = Eof \<and> i = 0 then (EOF, buf', i, s')
             else (0, buf', i, s')))"

section \<open>The line reader consumes input\<close>

text \<open>
  Every call of the line reader that does not return \<open>EOF\<close> takes at least one byte
  from the stream. The retry loops of the accessors terminate for this reason.
\<close>

lemma si_drainStdin_eq:
  "si_drainStdin s = s\<lparr>stdin := drop 1 (dropWhile (\<lambda>x. x \<noteq> NL) (stdin s))\<rparr>"
proof (induction s rule: si_drainStdin.induct)
  case (1 s)
  show ?case
  proof (cases "stdin s")
    case Nil
    then show ?thesis by (subst si_drainStdin.simps) (simp add: getchar_unlocked_def)
  next
    case (Cons x xs)
    show ?thesis
    proof (cases "x = NL")
      case True
      with Cons show ?thesis by (subst si_drainStdin.simps) (simp add: getchar_unlocked_def)
    next
      case False
      with Cons 1 [of "Byte x" "s\<lparr>stdin := xs\<rparr>"] show ?thesis
        by (subst si_drainStdin.simps) (simp add: getchar_unlocked_def)
    qed
  qed
qed

lemma readLoop_consumes:
  "readLoop i m c buf s = (i', c', buf', s') \<Longrightarrow>
   length (stdin s') + (i' - i) \<le> length (stdin s) \<and>
   (i < m \<and> c' \<noteq> Eof \<longrightarrow> length (stdin s') < length (stdin s)) \<and>
   length buf' = length buf \<and> i \<le> i' \<and> (i \<le> m \<longrightarrow> i' \<le> m) \<and>
   stderr s' = stderr s \<and> malloc_ok s' = malloc_ok s"
proof (induction i m c buf s arbitrary: i' c' buf' s' rule: readLoop.induct)
  case (1 i maxLen c buf s)
  show ?case
  proof (cases "i < maxLen")
    case False
    with "1.prems" show ?thesis by (subst (asm) readLoop.simps) simp
  next
    case True
    show ?thesis
    proof (cases "stdin s")
      case Nil
      with True "1.prems" show ?thesis
        by (subst (asm) readLoop.simps) (simp add: getchar_unlocked_def)
    next
      case (Cons x xs)
      show ?thesis
      proof (cases "x = NL")
        case True
        with \<open>i < maxLen\<close> Cons "1.prems" show ?thesis
          by (subst (asm) readLoop.simps) (auto simp add: getchar_unlocked_def)
      next
        case False
        have gc: "getchar_unlocked s = (Byte x, s\<lparr>stdin := xs\<rparr>)"
          using Cons by (simp add: getchar_unlocked_def)
        have rec: "readLoop (i + 1) maxLen (Byte x) (buf[i := x]) (s\<lparr>stdin := xs\<rparr>) = (i', c', buf', s')"
          using "1.prems" True False gc by (subst (asm) readLoop.simps) simp
        from "1.IH" [OF True gc [symmetric] refl False rec] Cons True
        show ?thesis by auto
      qed
    qed
  qed
qed

lemma si_readByte_consumes:
  assumes "si_readByte buf m l s = (r, buf', l', s')" and "1 \<le> m"
  shows "(r \<noteq> EOF \<longrightarrow> length (stdin s') < length (stdin s)) \<and>
         length (stdin s') \<le> length (stdin s) \<and>
         length buf' = length buf \<and> l' \<le> m \<and> malloc_ok s' = malloc_ok s \<and>
         (r = 0 \<or> r = 1 \<or> r = EOF)"
proof -
  obtain i c b t where rl: "readLoop 0 m Unset buf s = (i, c, b, t)"
    by (cases "readLoop 0 m Unset buf s") auto
  from readLoop_consumes [OF rl] assms(2)
  have f: "length (stdin t) + i \<le> length (stdin s)"
    "c \<noteq> Eof \<longrightarrow> length (stdin t) < length (stdin s)"
    "length b = length buf" "i \<le> m" "malloc_ok t = malloc_ok s"
    by auto
  have d: "length (drop 1 (dropWhile (\<lambda>x. x \<noteq> NL) (stdin t))) \<le> length (stdin t)"
    using length_dropWhile_le [of "\<lambda>x. x \<noteq> NL" "stdin t"] by simp
  consider (over) "i = m \<and> c \<noteq> Byte NL \<and> c \<noteq> Eof"
    | (eof) "\<not> (i = m \<and> c \<noteq> Byte NL \<and> c \<noteq> Eof)" "c = Eof \<and> i = 0"
    | (ok) "\<not> (i = m \<and> c \<noteq> Byte NL \<and> c \<noteq> Eof)" "\<not> (c = Eof \<and> i = 0)"
    by blast
  then show ?thesis
  proof cases
    case over
    with assms rl have "r = 1" "buf' = b" "l' = i"
      "s' = si_printError ''Input exceeding buffer size. Try again.\<newline>'' (si_drainStdin t)"
      by (simp_all add: si_readByte_def)
    with over f d show ?thesis
      by (simp add: si_drainStdin_eq si_printError_def)
  next
    case eof
    with assms rl have "r = EOF" "buf' = b" "l' = i" "s' = t"
      by (simp_all add: si_readByte_def)
    with f show ?thesis by simp
  next
    case ok
    with assms rl have "r = 0" "buf' = b" "l' = i" "s' = t"
      by (simp_all add: si_readByte_def)
    with ok f show ?thesis by (cases "c = Eof") auto
  qed
qed

lemma si_readByte_shorter:
  assumes "(r, buf', l', s') = si_readByte buf m l s" and "1 \<le> m" and "r \<noteq> EOF"
  shows "length (stdin s') < length (stdin s)"
    and "length (stdin (si_printError msg s')) < length (stdin s)"
  using si_readByte_consumes [OF assms(1) [symmetric] assms(2)] assms(3)
  by (simp_all add: si_printError_def)

section \<open>The typed accessors\<close>

text \<open>
  Each accessor declares its staging array and \<^verbatim>\<open>len\<close> without an initialiser. Their
  first contents are indeterminate, so they are arguments of the model (\<open>buffer\<close> and
  \<open>len0\<close>), and a theorem about an accessor holds for every array of the declared size.
  The array lives across the iterations of \<^verbatim>\<open>while ( 1 )\<close>; an iteration that ends in
  \<^verbatim>\<open>continue\<close> is the recursive call. \<^verbatim>\<open>sizeof(buffer)\<close> is \<open>INPUT_BUFFER_SIZE\<close>, or
  \<open>CHAR_INPUT_BUFFER_SIZE\<close> in the character accessors. \<open>buffer1\<close> and \<open>len1\<close> are the
  array and \<^verbatim>\<open>len\<close> after the read, \<open>buffer2\<close> the array after
  \<^verbatim>\<open>buffer[len] = '\0'\<close>. The test \<^verbatim>\<open>endptr == buffer\<close> is \<open>endptr = 0\<close> and
  \<^verbatim>\<open>*endptr\<close> is \<open>buffer2 ! endptr\<close>. The result is the returned value and the state.

  \<^verbatim>\<open>int si_getInt ( void )\<close>, which reads the value as a \<^verbatim>\<open>long\<close> and compares it with
  its cast to \<^verbatim>\<open>int\<close>:
\<close>

function si_getInt :: "char list \<Rightarrow> nat \<Rightarrow> world \<Rightarrow> int \<times> world" where
  "si_getInt buffer len0 s =
     (case si_readByte buffer (INPUT_BUFFER_SIZE - 1) len0 s of
        (r, buffer1, len1, s1) \<Rightarrow>
          if r \<noteq> 0 then (INT_MIN, s1)
          else
            let buffer2 = buffer1[len1 := NUL] in
            (case strtol buffer2 of
               (v, endptr, erange) \<Rightarrow>
                 if endptr = 0 \<or> buffer2 ! endptr \<noteq> NUL \<or> erange \<or> v \<noteq> int_of_long v
                 then si_getInt buffer2 len1 (si_printError ''Invalid input. Try again.\<newline>'' s1)
                 else (int_of_long v, s1)))"
  by pat_completeness auto
termination
  by (relation "measure (\<lambda>(buffer, len0, s). length (stdin s))")
     (auto simp: INPUT_BUFFER_SIZE_def EOF_def intro: si_readByte_shorter(2))

declare si_getInt.simps [simp del]

text \<open>
  \<^verbatim>\<open>unsigned int si_getUInt ( void )\<close>. The test of \<^verbatim>\<open>buffer[0] == '-'\<close> comes after
  the conversion and before the generic validation.
\<close>

function si_getUInt :: "char list \<Rightarrow> nat \<Rightarrow> world \<Rightarrow> int \<times> world" where
  "si_getUInt buffer len0 s =
     (case si_readByte buffer (INPUT_BUFFER_SIZE - 1) len0 s of
        (r, buffer1, len1, s1) \<Rightarrow>
          if r \<noteq> 0 then (UINT_MAX, s1)
          else
            let buffer2 = buffer1[len1 := NUL] in
            (case strtoul buffer2 of
               (v, endptr, erange) \<Rightarrow>
                 if buffer2 ! 0 = CHR ''-''
                 then si_getUInt buffer2 len1 (si_printError ''Value can not be negative.\<newline>'' s1)
                 else if endptr = 0 \<or> buffer2 ! endptr \<noteq> NUL \<or> erange \<or> UINT_MAX < v
                 then si_getUInt buffer2 len1 (si_printError ''Invalid input. Try again.\<newline>'' s1)
                 else (v, s1)))"
  by pat_completeness auto
termination
  by (relation "measure (\<lambda>(buffer, len0, s). length (stdin s))")
     (auto simp: INPUT_BUFFER_SIZE_def EOF_def intro: si_readByte_shorter(2))

declare si_getUInt.simps [simp del]

text \<open>
  \<^verbatim>\<open>float si_getFloat ( void )\<close> and \<^verbatim>\<open>double si_getDouble ( void )\<close>. The C library's
  \<^verbatim>\<open>strtof\<close>, \<^verbatim>\<open>strtod\<close> and \<^verbatim>\<open>isfinite\<close> and the constant \<^verbatim>\<open>NAN\<close> compute on
  floating-point values, which are not modelled: they are parameters, over any type
  \<open>'f\<close> of values, and the conversion returns the value, \<^verbatim>\<open>endptr\<close> and whether
  \<^verbatim>\<open>errno\<close> is \<^verbatim>\<open>ERANGE\<close>, as the integer conversions do.
\<close>

function si_getFloat ::
  "(char list \<Rightarrow> 'f \<times> nat \<times> bool) \<Rightarrow> ('f \<Rightarrow> bool) \<Rightarrow> 'f \<Rightarrow> char list \<Rightarrow> nat \<Rightarrow> world \<Rightarrow> 'f \<times> world" where
  "si_getFloat strtof isfinite NAN buffer len0 s =
     (case si_readByte buffer (INPUT_BUFFER_SIZE - 1) len0 s of
        (r, buffer1, len1, s1) \<Rightarrow>
          if r \<noteq> 0 then (NAN, s1)
          else
            let buffer2 = buffer1[len1 := NUL] in
            (case strtof buffer2 of
               (v, endptr, erange) \<Rightarrow>
                 if endptr = 0 \<or> buffer2 ! endptr \<noteq> NUL \<or> erange \<or> \<not> isfinite v
                 then si_getFloat strtof isfinite NAN buffer2 len1
                        (si_printError ''Invalid input. Try again.\<newline>'' s1)
                 else (v, s1)))"
  by pat_completeness auto
termination
  by (relation "measure (\<lambda>(strtof, isfinite, NAN, buffer, len0, s). length (stdin s))")
     (auto simp: INPUT_BUFFER_SIZE_def EOF_def intro: si_readByte_shorter(2))

declare si_getFloat.simps [simp del]

function si_getDouble ::
  "(char list \<Rightarrow> 'f \<times> nat \<times> bool) \<Rightarrow> ('f \<Rightarrow> bool) \<Rightarrow> 'f \<Rightarrow> char list \<Rightarrow> nat \<Rightarrow> world \<Rightarrow> 'f \<times> world" where
  "si_getDouble strtod isfinite NAN buffer len0 s =
     (case si_readByte buffer (INPUT_BUFFER_SIZE - 1) len0 s of
        (r, buffer1, len1, s1) \<Rightarrow>
          if r \<noteq> 0 then (NAN, s1)
          else
            let buffer2 = buffer1[len1 := NUL] in
            (case strtod buffer2 of
               (v, endptr, erange) \<Rightarrow>
                 if endptr = 0 \<or> buffer2 ! endptr \<noteq> NUL \<or> erange \<or> \<not> isfinite v
                 then si_getDouble strtod isfinite NAN buffer2 len1
                        (si_printError ''Invalid input. Try again.\<newline>'' s1)
                 else (v, s1)))"
  by pat_completeness auto
termination
  by (relation "measure (\<lambda>(strtod, isfinite, NAN, buffer, len0, s). length (stdin s))")
     (auto simp: INPUT_BUFFER_SIZE_def EOF_def intro: si_readByte_shorter(2))

declare si_getDouble.simps [simp del]

text \<open>
  \<^verbatim>\<open>long si_getLong ( void )\<close>, \<^verbatim>\<open>unsigned long si_getULong ( void )\<close>,
  \<^verbatim>\<open>long long si_getLongLong ( void )\<close> and
  \<^verbatim>\<open>unsigned long long si_getULongLong ( void )\<close>. None of the four has a test beyond
  the generic validation.
\<close>

function si_getLong :: "char list \<Rightarrow> nat \<Rightarrow> world \<Rightarrow> int \<times> world" where
  "si_getLong buffer len0 s =
     (case si_readByte buffer (INPUT_BUFFER_SIZE - 1) len0 s of
        (r, buffer1, len1, s1) \<Rightarrow>
          if r \<noteq> 0 then (LONG_MIN, s1)
          else
            let buffer2 = buffer1[len1 := NUL] in
            (case strtol buffer2 of
               (v, endptr, erange) \<Rightarrow>
                 if endptr = 0 \<or> buffer2 ! endptr \<noteq> NUL \<or> erange
                 then si_getLong buffer2 len1 (si_printError ''Invalid input. Try again.\<newline>'' s1)
                 else (v, s1)))"
  by pat_completeness auto
termination
  by (relation "measure (\<lambda>(buffer, len0, s). length (stdin s))")
     (auto simp: INPUT_BUFFER_SIZE_def EOF_def intro: si_readByte_shorter(2))

declare si_getLong.simps [simp del]

function si_getULong :: "char list \<Rightarrow> nat \<Rightarrow> world \<Rightarrow> int \<times> world" where
  "si_getULong buffer len0 s =
     (case si_readByte buffer (INPUT_BUFFER_SIZE - 1) len0 s of
        (r, buffer1, len1, s1) \<Rightarrow>
          if r \<noteq> 0 then (ULONG_MAX, s1)
          else
            let buffer2 = buffer1[len1 := NUL] in
            (case strtoul buffer2 of
               (v, endptr, erange) \<Rightarrow>
                 if endptr = 0 \<or> buffer2 ! endptr \<noteq> NUL \<or> erange
                 then si_getULong buffer2 len1 (si_printError ''Invalid input. Try again.\<newline>'' s1)
                 else (v, s1)))"
  by pat_completeness auto
termination
  by (relation "measure (\<lambda>(buffer, len0, s). length (stdin s))")
     (auto simp: INPUT_BUFFER_SIZE_def EOF_def intro: si_readByte_shorter(2))

declare si_getULong.simps [simp del]

function si_getLongLong :: "char list \<Rightarrow> nat \<Rightarrow> world \<Rightarrow> int \<times> world" where
  "si_getLongLong buffer len0 s =
     (case si_readByte buffer (INPUT_BUFFER_SIZE - 1) len0 s of
        (r, buffer1, len1, s1) \<Rightarrow>
          if r \<noteq> 0 then (LLONG_MIN, s1)
          else
            let buffer2 = buffer1[len1 := NUL] in
            (case strtoll buffer2 of
               (v, endptr, erange) \<Rightarrow>
                 if endptr = 0 \<or> buffer2 ! endptr \<noteq> NUL \<or> erange
                 then si_getLongLong buffer2 len1 (si_printError ''Invalid input. Try again.\<newline>'' s1)
                 else (v, s1)))"
  by pat_completeness auto
termination
  by (relation "measure (\<lambda>(buffer, len0, s). length (stdin s))")
     (auto simp: INPUT_BUFFER_SIZE_def EOF_def intro: si_readByte_shorter(2))

declare si_getLongLong.simps [simp del]

function si_getULongLong :: "char list \<Rightarrow> nat \<Rightarrow> world \<Rightarrow> int \<times> world" where
  "si_getULongLong buffer len0 s =
     (case si_readByte buffer (INPUT_BUFFER_SIZE - 1) len0 s of
        (r, buffer1, len1, s1) \<Rightarrow>
          if r \<noteq> 0 then (ULLONG_MAX, s1)
          else
            let buffer2 = buffer1[len1 := NUL] in
            (case strtoull buffer2 of
               (v, endptr, erange) \<Rightarrow>
                 if endptr = 0 \<or> buffer2 ! endptr \<noteq> NUL \<or> erange
                 then si_getULongLong buffer2 len1 (si_printError ''Invalid input. Try again.\<newline>'' s1)
                 else (v, s1)))"
  by pat_completeness auto
termination
  by (relation "measure (\<lambda>(buffer, len0, s). length (stdin s))")
     (auto simp: INPUT_BUFFER_SIZE_def EOF_def intro: si_readByte_shorter(2))

declare si_getULongLong.simps [simp del]

text \<open>
  \<^verbatim>\<open>int si_getChar ( void )\<close>. The terminator is written before the result of the read
  is looked at; \<^verbatim>\<open>(unsigned char)buffer[0]\<close> is the value of the byte, from 0 to 255.
\<close>

function si_getChar :: "char list \<Rightarrow> nat \<Rightarrow> world \<Rightarrow> int \<times> world" where
  "si_getChar buffer len0 s =
     (case si_readByte buffer (CHAR_INPUT_BUFFER_SIZE - 1) len0 s of
        (result, buffer1, len1, s1) \<Rightarrow>
          let buffer2 = buffer1[len1 := NUL] in
          if result = EOF then (EOF, s1)
          else if result = 1 then si_getChar buffer2 len1 s1
          else if len1 = 0 then (of_char NL, s1)
          else if len1 = 1 then (of_char (buffer2 ! 0), s1)
          else si_getChar buffer2 len1
                 (si_printError ''Invalid input. Please enter a single character.\<newline>'' s1))"
  by pat_completeness auto
termination
  by (relation "measure (\<lambda>(buffer, len0, s). length (stdin s))")
     (auto simp: CHAR_INPUT_BUFFER_SIZE_def intro: si_readByte_shorter)

declare si_getChar.simps [simp del]

text \<open>
  A call of a function either returns, or ends the process through \<^verbatim>\<open>exit\<close> with a
  status.
\<close>

datatype 'a call = Returns 'a | Exits int

definition EXIT_FAILURE :: int where
  "EXIT_FAILURE = 1"

text \<open>
  \<^verbatim>\<open>strchr( allowed, c ) != NULL\<close>, where \<open>allowed\<close> is the text of the string before
  its terminator: the terminator itself counts as part of the string.
\<close>

definition strchr_found :: "string \<Rightarrow> char \<Rightarrow> bool" where
  "strchr_found str c = (c \<in> set str \<or> c = NUL)"

function si_getCharFiltered_loop :: "string \<Rightarrow> char list \<Rightarrow> nat \<Rightarrow> world \<Rightarrow> int \<times> world" where
  "si_getCharFiltered_loop allowed buffer len0 s =
     (case si_readByte buffer (CHAR_INPUT_BUFFER_SIZE - 1) len0 s of
        (result, buffer1, len1, s1) \<Rightarrow>
          let buffer2 = buffer1[len1 := NUL] in
          if result = EOF then (EOF, s1)
          else if result = 1 then si_getCharFiltered_loop allowed buffer2 len1 s1
          else if len1 \<noteq> 1 then
            si_getCharFiltered_loop allowed buffer2 len1
              (si_printError ''Invalid input. Please enter a single character.\<newline>'' s1)
          else
            let c = buffer2 ! 0 in
            if strchr_found allowed c then (of_char c, s1)
            else si_getCharFiltered_loop allowed buffer2 len1
                   (si_printError (''Invalid input. Allowed: '' @ allowed @ ''\<newline>'') s1))"
  by pat_completeness auto
termination
  by (relation "measure (\<lambda>(allowed, buffer, len0, s). length (stdin s))")
     (auto simp: CHAR_INPUT_BUFFER_SIZE_def intro: si_readByte_shorter)

declare si_getCharFiltered_loop.simps [simp del]

text \<open>
  \<^verbatim>\<open>int si_getCharFiltered ( const char *allowed )\<close>: \<open>None\<close> is the null pointer,
  \<open>Some str\<close> a pointer to a string whose text before the terminator is \<open>str\<close>, so
  \<^verbatim>\<open>allowed[0] == '\0'\<close> is \<open>str = []\<close>.
\<close>

definition si_getCharFiltered :: "string option \<Rightarrow> char list \<Rightarrow> nat \<Rightarrow> world \<Rightarrow> int call \<times> world" where
  "si_getCharFiltered allowed buffer len0 s =
     (case allowed of
        None \<Rightarrow> (Exits EXIT_FAILURE, si_printError ''ERROR: NULL passed to 'allowed'.\<newline>'' s)
      | Some str \<Rightarrow>
          if str = [] then
            (Returns 1, si_printError ''No allowed characters specified. Exiting.\<newline>'' s)
          else
            (case si_getCharFiltered_loop str buffer len0 s of
               (v, s') \<Rightarrow> (Returns v, s')))"

text \<open>
  Memory from \<^verbatim>\<open>malloc\<close>: a block is the list of its bytes, \<open>None\<close> for a byte that
  was never written. A pointer to a block is \<open>Some\<close> of the block, the null pointer is
  \<open>None\<close>. \<^verbatim>\<open>memcpy( dst, src, n )\<close> writes the first \<open>n\<close> bytes.
\<close>

type_synonym block = "char option list"

definition malloc :: "nat \<Rightarrow> world \<Rightarrow> block option" where
  "malloc n s = (if malloc_ok s then Some (replicate n None) else None)"

definition memcpy :: "block \<Rightarrow> char list \<Rightarrow> nat \<Rightarrow> block" where
  "memcpy dst src n = map Some (take n src) @ drop n dst"

text \<open>
  \<^verbatim>\<open>char *si_getCString ( void )\<close>: one read, no loop; the block has \<open>len + 1\<close> bytes
  and receives the line and the terminator.
\<close>

definition si_getCString :: "char list \<Rightarrow> nat \<Rightarrow> world \<Rightarrow> block option \<times> world" where
  "si_getCString buffer len0 s =
     (case si_readByte buffer (INPUT_BUFFER_SIZE - 1) len0 s of
        (r, buffer1, len1, s1) \<Rightarrow>
          if r \<noteq> 0 then (None, s1)
          else
            let buffer2 = buffer1[len1 := NUL] in
            (case malloc (len1 + 1) s1 of
               None \<Rightarrow> (None, si_printError ''Memory allocation failed.\<newline>'' s1)
             | Some str \<Rightarrow> (Some (memcpy str buffer2 (len1 + 1)), s1)))"

text \<open>
  \<^verbatim>\<open>si_string si_getString ( void )\<close>: one read with the whole array as capacity, no
  loop and no terminator; the block has \<open>len\<close> bytes, or one byte when \<open>len\<close> is 0, and
  receives the \<open>len\<close> bytes of the line.
\<close>

record si_string =
  data :: "block option"
  len :: nat

definition si_getString :: "char list \<Rightarrow> nat \<Rightarrow> world \<Rightarrow> si_string \<times> world" where
  "si_getString buffer len0 s =
     (case si_readByte buffer INPUT_BUFFER_SIZE len0 s of
        (r, buffer1, len1, s1) \<Rightarrow>
          if r \<noteq> 0 then (\<lparr>data = None, len = 0\<rparr>, s1)
          else
            (case malloc (if len1 \<noteq> 0 then len1 else 1) s1 of
               None \<Rightarrow>
                 (\<lparr>data = None, len = 0\<rparr>, si_printError ''Memory allocation failed.\<newline>'' s1)
             | Some d \<Rightarrow> (\<lparr>data = Some (memcpy d buffer1 len1), len = len1\<rparr>, s1)))"

lemma si_getChar_consumes:
  "si_getChar buffer n s = (c, s') \<Longrightarrow>
   length (stdin s') \<le> length (stdin s) \<and> (c \<noteq> EOF \<longrightarrow> length (stdin s') < length (stdin s))"
proof (induction buffer n s rule: si_getChar.induct)
  case (1 buffer n s)
  obtain r b1 l1 s1 where rb: "si_readByte buffer (CHAR_INPUT_BUFFER_SIZE - 1) n s = (r, b1, l1, s1)"
    by (cases "si_readByte buffer (CHAR_INPUT_BUFFER_SIZE - 1) n s") auto
  from si_readByte_consumes [OF rb]
  have f: "r \<noteq> EOF \<longrightarrow> length (stdin s1) < length (stdin s)"
    "length (stdin s1) \<le> length (stdin s)" "r = 0 \<or> r = 1 \<or> r = EOF"
    by (simp_all add: CHAR_INPUT_BUFFER_SIZE_def)
  note ih = "1.IH" [OF rb [symmetric] refl refl refl]
  show ?case
  proof (cases "r = EOF")
    case True
    with "1.prems" rb f show ?thesis
      by (subst (asm) si_getChar.simps) simp
  next
    case nE: False
    show ?thesis
    proof (cases "r = 1")
      case True
      with nE "1.prems" rb have "si_getChar (b1[l1 := NUL]) l1 s1 = (c, s')"
        by (subst (asm) si_getChar.simps) simp
      from ih(1) [OF nE True this] f nE show ?thesis by auto
    next
      case n1: False
      show ?thesis
      proof (cases "l1 = 0 \<or> l1 = 1")
        case True
        with nE n1 "1.prems" rb f show ?thesis
          by (subst (asm) si_getChar.simps) (auto split: if_splits)
      next
        case False
        with nE n1 "1.prems" rb
        have "si_getChar (b1[l1 := NUL]) l1
                (si_printError ''Invalid input. Please enter a single character.\<newline>'' s1) = (c, s')"
          by (subst (asm) si_getChar.simps) simp
        from ih(2) [OF nE n1 _ _ this] False f nE show ?thesis
          by (auto simp: si_printError_def)
      qed
    qed
  qed
qed

text \<open>
  \<^verbatim>\<open>bool si_getBool ( void )\<close>. Every call of \<^verbatim>\<open>si_getChar\<close> has its own fresh
  locals; \<open>buffer\<close> and \<open>len0\<close> are their indeterminate first contents, on which the
  result of \<^verbatim>\<open>si_getChar\<close> does not depend (\<open>si_getChar_indep\<close> below).
\<close>

function si_getBool :: "char list \<Rightarrow> nat \<Rightarrow> world \<Rightarrow> bool \<times> world" where
  "si_getBool buffer len0 s =
     (case si_getChar buffer len0 s of
        (c, s1) \<Rightarrow>
          if c = EOF then
            (False, si_printError ''EOF detected. Returning false by default.\<newline>'' s1)
          else if c = of_char (CHR ''Y'') \<or> c = of_char (CHR ''y'') then (True, s1)
          else if c = of_char (CHR ''N'') \<or> c = of_char (CHR ''n'') then (False, s1)
          else si_getBool buffer len0
                 (si_printError ''Invalid input. Enter 'y' or 'n'.\<newline>'' s1))"
  by pat_completeness auto
termination
proof (relation "measure (\<lambda>(buffer, len0, s). length (stdin s))")
  show "wf (measure (\<lambda>(buffer, len0, s). length (stdin s)))"
    by simp
next
  fix buffer :: "char list" and len0 :: nat and s :: world and c :: int and s1 :: world
  assume "(c, s1) = si_getChar buffer len0 s" and "c \<noteq> EOF"
  then have "length (stdin s1) < length (stdin s)"
    using si_getChar_consumes [of buffer len0 s c s1] by simp
  then show "((buffer, len0, si_printError ''Invalid input. Enter 'y' or 'n'.\<newline>'' s1),
              buffer, len0, s) \<in> measure (\<lambda>(buffer, len0, s). length (stdin s))"
    by (simp add: si_printError_def)
qed

declare si_getBool.simps [simp del]

section \<open>Lines of the input\<close>

text \<open>
  Two notions for stating what the functions do to the stream: the line at the front of
  the input (its bytes up to the first newline or the end of the stream) and the state
  once that line and its newline have been consumed.
\<close>

definition cur_line :: "world \<Rightarrow> char list" where
  "cur_line s = takeWhile (\<lambda>x. x \<noteq> NL) (stdin s)"

definition next_line :: "world \<Rightarrow> world" where
  "next_line s = s\<lparr>stdin := drop (Suc (length (cur_line s))) (stdin s)\<rparr>"

text \<open>
  The staging buffer after a successful read of \<open>line\<close> and the write of the terminator.
\<close>

definition staged :: "char list \<Rightarrow> char list \<Rightarrow> char list" where
  "staged line buffer = (line @ drop (length line) buffer)[length line := NUL]"

section \<open>Properties of the line reader\<close>

lemma readLoop_line:
  "NL \<notin> set line \<Longrightarrow> i + length line < maxLen \<Longrightarrow> i + length line \<le> length buf \<Longrightarrow>
   stdin s = line @ NL # rest \<Longrightarrow>
   readLoop i maxLen c buf s =
     (i + length line, Byte NL, take i buf @ line @ drop (i + length line) buf, s\<lparr>stdin := rest\<rparr>)"
proof (induction line arbitrary: i c buf s)
  case Nil
  then show ?case by (subst readLoop.simps) (simp add: getchar_unlocked_def)
next
  case (Cons x xs)
  from Cons.prems have x: "x \<noteq> NL" and i: "i < length buf" "i < maxLen" by auto
  have ih: "readLoop (i + 1) maxLen (Byte x) (buf[i := x]) (s\<lparr>stdin := xs @ NL # rest\<rparr>) =
     (i + 1 + length xs, Byte NL, take (i + 1) (buf[i := x]) @ xs @ drop (i + 1 + length xs) (buf[i := x]),
      s\<lparr>stdin := xs @ NL # rest, stdin := rest\<rparr>)"
    using Cons.prems by (intro Cons.IH) auto
  have upd: "take (i + 1) (buf[i := x]) = take i buf @ [x]"
    using i by (simp add: take_Suc_conv_app_nth)
  show ?case
    using Cons.prems x i ih upd
    by (subst readLoop.simps) (simp add: getchar_unlocked_def)
qed

lemma readLoop_eof:
  "NL \<notin> set line \<Longrightarrow> i + length line < maxLen \<Longrightarrow> i + length line \<le> length buf \<Longrightarrow>
   stdin s = line \<Longrightarrow>
   readLoop i maxLen c buf s =
     (i + length line, Eof, take i buf @ line @ drop (i + length line) buf, s\<lparr>stdin := []\<rparr>)"
proof (induction line arbitrary: i c buf s)
  case Nil
  then show ?case by (subst readLoop.simps) (simp add: getchar_unlocked_def)
next
  case (Cons x xs)
  from Cons.prems have x: "x \<noteq> NL" and i: "i < length buf" "i < maxLen" by auto
  have ih: "readLoop (i + 1) maxLen (Byte x) (buf[i := x]) (s\<lparr>stdin := xs\<rparr>) =
     (i + 1 + length xs, Eof, take (i + 1) (buf[i := x]) @ xs @ drop (i + 1 + length xs) (buf[i := x]),
      s\<lparr>stdin := xs, stdin := []\<rparr>)"
    using Cons.prems by (intro Cons.IH) auto
  have upd: "take (i + 1) (buf[i := x]) = take i buf @ [x]"
    using i by (simp add: take_Suc_conv_app_nth)
  show ?case
    using Cons.prems x i ih upd
    by (subst readLoop.simps) (simp add: getchar_unlocked_def)
qed

lemma readLoop_full:
  "NL \<notin> set pre \<Longrightarrow> i + length pre = maxLen \<Longrightarrow> pre \<noteq> [] \<Longrightarrow> maxLen \<le> length buf \<Longrightarrow>
   stdin s = pre @ after \<Longrightarrow>
   readLoop i maxLen c buf s =
     (maxLen, Byte (last pre), take i buf @ pre @ drop maxLen buf, s\<lparr>stdin := after\<rparr>)"
proof (induction pre arbitrary: i c buf s)
  case Nil
  then show ?case by simp
next
  case (Cons x xs)
  from Cons.prems have x: "x \<noteq> NL" and i: "i < length buf" "i < maxLen" by auto
  have stop: "\<And>c b t. readLoop maxLen maxLen c b t = (maxLen, c, b, t)"
    by (subst readLoop.simps) simp
  have upd: "take (i + 1) (buf[i := x]) = take i buf @ [x]"
    using i by (simp add: take_Suc_conv_app_nth)
  show ?case
  proof (cases "xs = []")
    case True
    with Cons.prems x i show ?thesis
      by (subst readLoop.simps)
         (simp add: getchar_unlocked_def upd_conv_take_nth_drop stop)
  next
    case False
    have ih: "readLoop (i + 1) maxLen (Byte x) (buf[i := x]) (s\<lparr>stdin := xs @ after\<rparr>) =
       (maxLen, Byte (last xs), take (i + 1) (buf[i := x]) @ xs @ drop maxLen (buf[i := x]),
        s\<lparr>stdin := xs @ after, stdin := after\<rparr>)"
      using Cons.prems False by (intro Cons.IH) auto
    show ?thesis
      using Cons.prems x i ih upd False
      by (subst readLoop.simps) (simp add: getchar_unlocked_def)
  qed
qed

text \<open>
  One call on a stream that starts with the line \<open>line\<close>, ended by a newline or, when
  the line is not empty, by the end of the stream.
\<close>

lemma si_readByte_spec:
  assumes "1 \<le> c" and "c \<le> length buf" and "NL \<notin> set line"
    and "stdin s = line @ NL # rest \<or> (stdin s = line \<and> line \<noteq> [] \<and> rest = [])"
  shows "si_readByte buf c outLen s =
     (if length line < c
      then (0, line @ drop (length line) buf, length line, s\<lparr>stdin := rest\<rparr>)
      else (1, take c line @ drop c buf, c,
            s\<lparr>stdin := rest,
              stderr := stderr s @ [''Input exceeding buffer size. Try again.\<newline>'']\<rparr>))"
proof (cases "length line < c")
  case True
  from assms(4) show ?thesis
  proof
    assume st: "stdin s = line @ NL # rest"
    from readLoop_line [of line 0 c buf s rest Unset] assms True st
    show ?thesis by (simp add: si_readByte_def)
  next
    assume st: "stdin s = line \<and> line \<noteq> [] \<and> rest = []"
    from readLoop_eof [of line 0 c buf s Unset] assms True st
    show ?thesis by (simp add: si_readByte_def)
  qed
next
  case False
  define pre where "pre = take c line"
  define suf where "suf = drop c line"
  have pre: "NL \<notin> set pre" "length pre = c" "pre \<noteq> []" "line = pre @ suf" "NL \<notin> set suf"
    using assms False by (auto simp: pre_def suf_def dest: in_set_takeD in_set_dropD)
  have sufall: "\<forall>x\<in>set suf. x \<noteq> NL" using pre(5) by auto
  have lastpre: "last pre \<noteq> NL"
    using pre(1,3) last_in_set by metis
  from assms(4) show ?thesis
  proof
    assume st: "stdin s = line @ NL # rest"
    then have st': "stdin s = pre @ (suf @ NL # rest)" using pre by simp
    have dw: "dropWhile (\<lambda>x. x \<noteq> NL) (suf @ NL # rest) = NL # rest"
      using sufall by (simp add: dropWhile_append3)
    from readLoop_full [OF pre(1) _ pre(3) assms(2) st', of 0 Unset] pre(2)
    have "readLoop 0 c Unset buf s = (c, Byte (last pre), pre @ drop c buf, s\<lparr>stdin := suf @ NL # rest\<rparr>)"
      by simp
    then show ?thesis
      using False assms(1) lastpre dw
      by (simp add: si_readByte_def si_drainStdin_eq si_printError_def pre_def)
  next
    assume st: "stdin s = line \<and> line \<noteq> [] \<and> rest = []"
    then have st': "stdin s = pre @ suf" using pre by simp
    have dw: "dropWhile (\<lambda>x. x \<noteq> NL) suf = []"
      using sufall by simp
    from readLoop_full [OF pre(1) _ pre(3) assms(2) st', of 0 Unset] pre(2)
    have "readLoop 0 c Unset buf s = (c, Byte (last pre), pre @ drop c buf, s\<lparr>stdin := suf\<rparr>)"
      by simp
    then show ?thesis
      using False assms(1) lastpre st
      by (simp add: si_readByte_def si_drainStdin_eq si_printError_def pre_def dw)
  qed
qed

text \<open>
  C1. For every capacity \<open>c \<ge> 1\<close> and every input line of length \<open>L\<close> read by
  \<^verbatim>\<open>si_readByte\<close> with \<open>maxLen = c\<close> into an array of at least \<open>c\<close> bytes: if \<open>L < c\<close>
  the call returns 0 (success), stores \<open>L\<close> in \<^verbatim>\<open>*outLen\<close> and the line in the first
  \<open>L\<close> bytes of the buffer; if \<open>L \<ge> c\<close> it returns 1 (overrun) after reporting it, the
  buffer starts with exactly the first \<open>c\<close> bytes of the line, and the rest of the
  physical line, newline included, is consumed, so that the next read starts at \<open>rest\<close>.
  The line is ended by a newline, or is a non-empty last line ended by end-of-stream.
\<close>

theorem C1_bounded_line_read:
  assumes "1 \<le> c" and "c \<le> length buf" and "NL \<notin> set line"
  shows "si_readByte buf c outLen (s\<lparr>stdin := line @ NL # rest\<rparr>) =
           (if length line < c
            then (0, line @ drop (length line) buf, length line, s\<lparr>stdin := rest\<rparr>)
            else (1, take c line @ drop c buf, c,
                  s\<lparr>stdin := rest,
                    stderr := stderr s @ [''Input exceeding buffer size. Try again.\<newline>'']\<rparr>)) \<and>
         (line \<noteq> [] \<longrightarrow>
          si_readByte buf c outLen (s\<lparr>stdin := line\<rparr>) =
           (if length line < c
            then (0, line @ drop (length line) buf, length line, s\<lparr>stdin := []\<rparr>)
            else (1, take c line @ drop c buf, c,
                  s\<lparr>stdin := [],
                    stderr := stderr s @ [''Input exceeding buffer size. Try again.\<newline>'']\<rparr>)))"
  using si_readByte_spec [OF assms, of "s\<lparr>stdin := line @ NL # rest\<rparr>" rest outLen]
        si_readByte_spec [OF assms, of "s\<lparr>stdin := line\<rparr>" "[]" outLen]
  by simp

theorem C1_bounded_line_read_witness:
  "(1::nat) \<le> 3 \<and> 3 \<le> length ''wxyz'' \<and> NL \<notin> set ''hello'' \<and> ''hello'' \<noteq> [] \<and>
   si_readByte ''wxyz'' 3 0 \<lparr>stdin = ''hello'' @ NL # ''next'', stderr = [], malloc_ok = True\<rparr> =
     (1, ''helz'', 3,
      \<lparr>stdin = ''next'', stderr = [''Input exceeding buffer size. Try again.\<newline>''],
       malloc_ok = True\<rparr>) \<and>
   si_readByte ''wxyz'' 3 0 \<lparr>stdin = ''hello'', stderr = [], malloc_ok = True\<rparr> =
     (1, ''helz'', 3,
      \<lparr>stdin = [], stderr = [''Input exceeding buffer size. Try again.\<newline>''],
       malloc_ok = True\<rparr>) \<and>
   NL \<notin> set ''hi'' \<and> ''hi'' \<noteq> [] \<and>
   si_readByte ''wxyz'' 3 0 \<lparr>stdin = ''hi'' @ NL # ''next'', stderr = [], malloc_ok = True\<rparr> =
     (0, ''hiyz'', 2, \<lparr>stdin = ''next'', stderr = [], malloc_ok = True\<rparr>) \<and>
   si_readByte ''wxyz'' 3 0 \<lparr>stdin = ''hi'', stderr = [], malloc_ok = True\<rparr> =
     (0, ''hiyz'', 2, \<lparr>stdin = [], stderr = [], malloc_ok = True\<rparr>)"
  using C1_bounded_line_read [where c = 3 and buf = "''wxyz''" and line = "''hello''"
          and outLen = 0 and s = "\<lparr>stdin = [], stderr = [], malloc_ok = True\<rparr>"
          and rest = "''next''"]
        C1_bounded_line_read [where c = 3 and buf = "''wxyz''" and line = "''hi''"
          and outLen = 0 and s = "\<lparr>stdin = [], stderr = [], malloc_ok = True\<rparr>"
          and rest = "''next''"]
  by (simp add: NL_def)

text \<open>
  C3. For every read with capacity \<open>c \<ge> 1\<close>: at end-of-stream with nothing read the
  line reader returns \<open>EOF\<close>, never 0 with count 0; when the first byte is the newline it
  returns 0 with count 0 and consumes the newline. \<open>EOF\<close> is not 0, so the caller can
  tell the two apart.
\<close>

theorem C3_eof_is_not_empty_line:
  assumes "1 \<le> c"
  shows "si_readByte buf c outLen (s\<lparr>stdin := []\<rparr>) = (EOF, buf, 0, s\<lparr>stdin := []\<rparr>) \<and>
         si_readByte buf c outLen (s\<lparr>stdin := NL # rest\<rparr>) = (0, buf, 0, s\<lparr>stdin := rest\<rparr>) \<and>
         EOF \<noteq> 0"
  using assms
  by (simp add: si_readByte_def getchar_unlocked_def EOF_def readLoop.simps [of 0])

theorem C3_eof_is_not_empty_line_witness:
  "(1::nat) \<le> 1 \<and>
   si_readByte ''w'' 1 7 \<lparr>stdin = [], stderr = [], malloc_ok = True\<rparr> =
     (EOF, ''w'', 0, \<lparr>stdin = [], stderr = [], malloc_ok = True\<rparr>) \<and>
   si_readByte ''w'' 1 7 \<lparr>stdin = NL # ''x'', stderr = [], malloc_ok = True\<rparr> =
     (0, ''w'', 0, \<lparr>stdin = ''x'', stderr = [], malloc_ok = True\<rparr>) \<and>
   EOF \<noteq> 0"
  using C3_eof_is_not_empty_line [of 1 "''w''" 7
          "\<lparr>stdin = [], stderr = [], malloc_ok = True\<rparr>" "''x''"]
  by simp

section \<open>Properties of the character and boolean accessors\<close>

lemma takeWhile_line:
  "NL \<notin> set line \<Longrightarrow> takeWhile (\<lambda>x. x \<noteq> NL) (line @ NL # rest) = line"
  "NL \<notin> set line \<Longrightarrow> takeWhile (\<lambda>x. x \<noteq> NL) line = line"
  by (induction line) auto

lemma cur_line_simps [simp]:
  "NL \<notin> set line \<Longrightarrow> cur_line (s\<lparr>stdin := line @ NL # rest\<rparr>) = line"
  "NL \<notin> set line \<Longrightarrow> cur_line (s\<lparr>stdin := line\<rparr>) = line"
  "cur_line (s\<lparr>stdin := NL # rest\<rparr>) = []"
  "cur_line (s\<lparr>stderr := e\<rparr>) = cur_line s"
  by (auto simp: cur_line_def takeWhile_line)

lemma next_line_simps [simp]:
  "NL \<notin> set line \<Longrightarrow> next_line (s\<lparr>stdin := line @ NL # rest\<rparr>) = s\<lparr>stdin := rest\<rparr>"
  "NL \<notin> set line \<Longrightarrow> next_line (s\<lparr>stdin := line\<rparr>) = s\<lparr>stdin := []\<rparr>"
  "next_line (s\<lparr>stdin := NL # rest\<rparr>) = s\<lparr>stdin := rest\<rparr>"
  by (auto simp: next_line_def cur_line_def takeWhile_line)

lemma line_state:
  assumes "NL \<notin> set line"
  shows "stdin (s\<lparr>stdin := line @ NL # rest\<rparr>) \<noteq> []"
    and "cur_line (s\<lparr>stdin := line @ NL # rest\<rparr>) = line"
    and "next_line (s\<lparr>stdin := line @ NL # rest\<rparr>) = s\<lparr>stdin := rest\<rparr>"
  using assms by simp_all

lemma line_state_eof:
  assumes "NL \<notin> set line" and "line \<noteq> []"
  shows "stdin (s\<lparr>stdin := line\<rparr>) \<noteq> []"
    and "cur_line (s\<lparr>stdin := line\<rparr>) = line"
    and "next_line (s\<lparr>stdin := line\<rparr>) = s\<lparr>stdin := []\<rparr>"
  using assms by simp_all

lemma NL_notin_cur_line [simp]: "NL \<notin> set (cur_line s)"
  by (auto simp: cur_line_def dest: set_takeWhileD)

lemma next_line_shorter:
  "stdin s \<noteq> [] \<Longrightarrow> length (stdin (next_line s)) < length (stdin s)"
  by (simp add: next_line_def)

lemma next_line_fields [simp]:
  "stderr (next_line s) = stderr s" "malloc_ok (next_line s) = malloc_ok s"
  by (simp_all add: next_line_def)

lemma stdin_split:
  "stdin s = cur_line s @ NL # stdin (next_line s) \<or>
   (stdin s = cur_line s \<and> stdin (next_line s) = [])"
proof (cases "NL \<in> set (stdin s)")
  case True
  then have "dropWhile (\<lambda>x. x \<noteq> NL) (stdin s) \<noteq> []" by auto
  then obtain y ys where d: "dropWhile (\<lambda>x. x \<noteq> NL) (stdin s) = y # ys"
    by (cases "dropWhile (\<lambda>x. x \<noteq> NL) (stdin s)") auto
  then have "y = NL" using hd_dropWhile [of "\<lambda>x. x \<noteq> NL" "stdin s"] by auto
  moreover have "stdin s = cur_line s @ dropWhile (\<lambda>x. x \<noteq> NL) (stdin s)"
    by (simp add: cur_line_def)
  moreover have "drop (length (cur_line s)) (stdin s) = dropWhile (\<lambda>x. x \<noteq> NL) (stdin s)"
    by (simp add: cur_line_def dropWhile_eq_drop)
  then have "stdin (next_line s) = ys"
    using d by (simp add: next_line_def drop_Suc drop_tl)
  ultimately show ?thesis using d by simp
next
  case False
  then have "cur_line s = stdin s" by (simp add: cur_line_def takeWhile_line)
  then show ?thesis by (simp add: next_line_def)
qed

lemma si_readByte_total:
  assumes "1 \<le> m" and "m \<le> length buf"
  shows "si_readByte buf m l s =
     (if stdin s = [] then (EOF, buf, 0, s)
      else if length (cur_line s) < m
      then (0, cur_line s @ drop (length (cur_line s)) buf, length (cur_line s), next_line s)
      else (1, take m (cur_line s) @ drop m buf, m,
            si_printError ''Input exceeding buffer size. Try again.\<newline>'' (next_line s)))"
proof (cases "stdin s = []")
  case True
  then show ?thesis using assms(1)
    by (simp add: si_readByte_def getchar_unlocked_def EOF_def readLoop.simps [of 0])
next
  case False
  have nl: "next_line s = s\<lparr>stdin := stdin (next_line s)\<rparr>"
    by (simp add: next_line_def)
  from stdin_split [of s] False
  have "stdin s = cur_line s @ NL # stdin (next_line s) \<or>
        (stdin s = cur_line s \<and> cur_line s \<noteq> [] \<and> stdin (next_line s) = [])"
    by auto
  from si_readByte_spec [OF assms NL_notin_cur_line this, of l] False nl
  show ?thesis by (simp add: si_printError_def next_line_def)
qed

lemma stdin_printError [simp]:
  "stdin (si_printError msg s) = stdin s"
  "malloc_ok (si_printError msg s) = malloc_ok s"
  "stderr (si_printError msg s) = stderr s @ [msg]"
  by (simp_all add: si_printError_def)

lemma si_getChar_unfold:
  assumes "length buffer = 4"
  shows "si_getChar buffer l s =
     (if stdin s = [] then (EOF, s)
      else if 3 \<le> length (cur_line s) then
        si_getChar ((take 3 (cur_line s) @ drop 3 buffer)[3 := NUL]) 3
          (si_printError ''Input exceeding buffer size. Try again.\<newline>'' (next_line s))
      else if cur_line s = [] then (of_char NL, next_line s)
      else if length (cur_line s) = 1 then (of_char (hd (cur_line s)), next_line s)
      else si_getChar ((cur_line s @ drop (length (cur_line s)) buffer)[length (cur_line s) := NUL])
             (length (cur_line s))
             (si_printError ''Invalid input. Please enter a single character.\<newline>'' (next_line s)))"
proof -
  have rb: "si_readByte buffer 3 l s =
     (if stdin s = [] then (EOF, buffer, 0, s)
      else if length (cur_line s) < 3
      then (0, cur_line s @ drop (length (cur_line s)) buffer, length (cur_line s), next_line s)
      else (1, take 3 (cur_line s) @ drop 3 buffer, 3,
            si_printError ''Input exceeding buffer size. Try again.\<newline>'' (next_line s)))"
    using assms by (intro si_readByte_total) simp_all
  have hd0: "xs \<noteq> [] \<Longrightarrow> (xs @ ys) ! 0 = hd xs" for xs ys :: "char list"
    by (cases xs) auto
  show ?thesis
    by (subst si_getChar.simps)
       (auto simp: rb CHAR_INPUT_BUFFER_SIZE_def EOF_def Let_def hd0)
qed

lemma si_getChar_indep:
  "length b1 = 4 \<Longrightarrow> length b2 = 4 \<Longrightarrow> si_getChar b1 l1 s = si_getChar b2 l2 s"
proof (induction "length (stdin s)" arbitrary: s b1 b2 l1 l2 rule: less_induct)
  case less
  have ih: "\<And>msg c1 c2 k1 k2. length c1 = 4 \<Longrightarrow> length c2 = 4 \<Longrightarrow> stdin s \<noteq> [] \<Longrightarrow>
      si_getChar c1 k1 (si_printError msg (next_line s)) =
      si_getChar c2 k2 (si_printError msg (next_line s))"
    using less.hyps next_line_shorter by simp
  show ?case
    by (subst si_getChar_unfold [OF less.prems(1)], subst si_getChar_unfold [OF less.prems(2)])
       (auto simp: less.prems intro!: ih)
qed

lemma si_getChar_line:
  assumes "length buffer = 4"
  shows "si_getChar buffer l s =
     (if stdin s = [] then (EOF, s)
      else if cur_line s = [] then (of_char NL, next_line s)
      else if length (cur_line s) = 1 then (of_char (hd (cur_line s)), next_line s)
      else si_getChar buffer l
             (si_printError
                (if length (cur_line s) < 3
                 then ''Invalid input. Please enter a single character.\<newline>''
                 else ''Input exceeding buffer size. Try again.\<newline>'')
                (next_line s)))"
proof -
  have a: "3 \<le> length (cur_line s) \<Longrightarrow>
      si_getChar ((take 3 (cur_line s) @ drop 3 buffer)[3 := NUL]) 3 t = si_getChar buffer l t" for t
    using assms by (intro si_getChar_indep) simp_all
  have b: "length (cur_line s) < 3 \<Longrightarrow>
      si_getChar ((cur_line s @ drop (length (cur_line s)) buffer)[length (cur_line s) := NUL])
        (length (cur_line s)) t = si_getChar buffer l t" for t
    using assms by (intro si_getChar_indep) simp_all
  show ?thesis
    by (subst si_getChar_unfold [OF assms]) (auto simp: a b)
qed

lemma of_char_nonneg: "(0::int) \<le> of_char c"
proof -
  have "(of_char c :: int) = of_char c mod 256" by simp
  also have "0 \<le> (of_char c :: int) mod 256" by (rule pos_mod_sign) simp
  finally show ?thesis .
qed

lemma of_char_neq_EOF [simp]: "of_char c \<noteq> EOF" "EOF \<noteq> of_char c"
  using of_char_nonneg [of c] by (auto simp: EOF_def)

lemma si_getChar_cases:
  assumes "length buffer = 4"
  shows "stdin s = [] \<Longrightarrow> si_getChar buffer l s = (EOF, s)"
    and "stdin s \<noteq> [] \<Longrightarrow> cur_line s = [] \<Longrightarrow> si_getChar buffer l s = (of_char NL, next_line s)"
    and "stdin s \<noteq> [] \<Longrightarrow> cur_line s = [ch] \<Longrightarrow> si_getChar buffer l s = (of_char ch, next_line s)"
    and "stdin s \<noteq> [] \<Longrightarrow> 2 \<le> length (cur_line s) \<Longrightarrow>
         si_getChar buffer l s =
         si_getChar buffer l
           (si_printError
              (if length (cur_line s) < 3
               then ''Invalid input. Please enter a single character.\<newline>''
               else ''Input exceeding buffer size. Try again.\<newline>'')
              (next_line s))"
proof -
  show "stdin s = [] \<Longrightarrow> si_getChar buffer l s = (EOF, s)"
    by (subst si_getChar_line [OF assms]) simp
  show "stdin s \<noteq> [] \<Longrightarrow> cur_line s = [] \<Longrightarrow> si_getChar buffer l s = (of_char NL, next_line s)"
    by (subst si_getChar_line [OF assms]) simp
  show "stdin s \<noteq> [] \<Longrightarrow> cur_line s = [ch] \<Longrightarrow> si_getChar buffer l s = (of_char ch, next_line s)"
    by (subst si_getChar_line [OF assms]) simp
  show "stdin s \<noteq> [] \<Longrightarrow> 2 \<le> length (cur_line s) \<Longrightarrow>
         si_getChar buffer l s =
         si_getChar buffer l
           (si_printError
              (if length (cur_line s) < 3
               then ''Invalid input. Please enter a single character.\<newline>''
               else ''Input exceeding buffer size. Try again.\<newline>'')
              (next_line s))"
    by (subst si_getChar_line [OF assms]) auto
qed

lemma si_getBool_line:
  assumes "length buffer = 4"
  shows "si_getBool buffer len0 s =
     (if stdin s = [] then
        (False, si_printError ''EOF detected. Returning false by default.\<newline>'' s)
      else if cur_line s = ''Y'' \<or> cur_line s = ''y'' then (True, next_line s)
      else if cur_line s = ''N'' \<or> cur_line s = ''n'' then (False, next_line s)
      else si_getBool buffer len0
             (si_printError
                (if length (cur_line s) \<le> 1 then ''Invalid input. Enter 'y' or 'n'.\<newline>''
                 else if length (cur_line s) < 3
                 then ''Invalid input. Please enter a single character.\<newline>''
                 else ''Input exceeding buffer size. Try again.\<newline>'')
                (next_line s)))"
proof -
  note gc = si_getChar_cases [OF assms]
  consider (eof) "stdin s = []"
    | (empty) "stdin s \<noteq> []" "cur_line s = []"
    | (single) ch where "stdin s \<noteq> []" "cur_line s = [ch]"
    | (long) "stdin s \<noteq> []" "2 \<le> length (cur_line s)"
  proof (cases "cur_line s")
    case Nil
    then show ?thesis using that by blast
  next
    case (Cons x xs)
    then show ?thesis using that by (cases xs) auto
  qed
  then show ?thesis
  proof cases
    case eof
    then show ?thesis
      by (subst si_getBool.simps) (simp add: gc(1) [OF eof])
  next
    case empty
    then show ?thesis
      by (subst si_getBool.simps) (simp add: gc(2) [OF empty] NL_def EOF_def)
  next
    case single
    then show ?thesis
      by (subst si_getBool.simps) (simp add: gc(3) [OF single] del: of_char_Char)
  next
    case long
    then have ne: "cur_line s \<noteq> ''Y''" "cur_line s \<noteq> ''y''" "cur_line s \<noteq> ''N''" "cur_line s \<noteq> ''n''"
      "\<not> length (cur_line s) \<le> 1"
      by auto
    let ?t = "si_printError
                (if length (cur_line s) < 3
                 then ''Invalid input. Please enter a single character.\<newline>''
                 else ''Input exceeding buffer size. Try again.\<newline>'')
                (next_line s)"
    have "si_getBool buffer len0 s = si_getBool buffer len0 ?t"
      by (subst si_getBool.simps, subst (2) si_getBool.simps) (simp only: gc(4) [OF long])
    then show ?thesis
      using long(1) ne by simp
  qed
qed

text \<open>
  C7. For every input line read by \<^verbatim>\<open>si_getChar\<close>: an empty line returns the value of
  the newline character; a line of exactly one byte returns the value of that byte; a
  line of any other length is rejected with a diagnostic (the single-character one for two
  bytes, the line reader's overrun one for three or more) and the accessor goes on with
  the next line instead of returning. The same holds for a last line that ends with the
  stream: one byte is returned, any other length is rejected, and the retry then meets
  the end of the stream.
\<close>

theorem C7_si_getChar_by_length:
  assumes "length buffer = CHAR_INPUT_BUFFER_SIZE" and "NL \<notin> set line"
  shows "si_getChar buffer n (s\<lparr>stdin := line @ NL # rest\<rparr>) =
           (if line = [] then (of_char NL, s\<lparr>stdin := rest\<rparr>)
            else if length line = 1 then (of_char (hd line), s\<lparr>stdin := rest\<rparr>)
            else si_getChar buffer n
                   (s\<lparr>stdin := rest,
                      stderr := stderr s @
                        [if length line < 3
                         then ''Invalid input. Please enter a single character.\<newline>''
                         else ''Input exceeding buffer size. Try again.\<newline>'']\<rparr>)) \<and>
         (line \<noteq> [] \<longrightarrow>
          si_getChar buffer n (s\<lparr>stdin := line\<rparr>) =
           (if length line = 1 then (of_char (hd line), s\<lparr>stdin := []\<rparr>)
            else (EOF,
                  s\<lparr>stdin := [],
                    stderr := stderr s @
                      [if length line < 3
                       then ''Invalid input. Please enter a single character.\<newline>''
                       else ''Input exceeding buffer size. Try again.\<newline>'']\<rparr>)))"
proof -
  have b: "length buffer = 4" using assms(1) by (simp add: CHAR_INPUT_BUFFER_SIZE_def)
  have 1: "si_getChar buffer n (s\<lparr>stdin := line @ NL # rest\<rparr>) =
           (if line = [] then (of_char NL, s\<lparr>stdin := rest\<rparr>)
            else if length line = 1 then (of_char (hd line), s\<lparr>stdin := rest\<rparr>)
            else si_getChar buffer n
                   (s\<lparr>stdin := rest,
                      stderr := stderr s @
                        [if length line < 3
                         then ''Invalid input. Please enter a single character.\<newline>''
                         else ''Input exceeding buffer size. Try again.\<newline>'']\<rparr>))"
    using assms(2) by (subst si_getChar_line [OF b]) (simp add: si_printError_def)
  have eof: "si_getChar buffer n t = (EOF, t)" if "stdin t = []" for t
    using that by (subst si_getChar_line [OF b]) simp
  have 2: "si_getChar buffer n (s\<lparr>stdin := line\<rparr>) =
           (if length line = 1 then (of_char (hd line), s\<lparr>stdin := []\<rparr>)
            else (EOF,
                  s\<lparr>stdin := [],
                    stderr := stderr s @
                      [if length line < 3
                       then ''Invalid input. Please enter a single character.\<newline>''
                       else ''Input exceeding buffer size. Try again.\<newline>'']\<rparr>))"
    if "line \<noteq> []"
    using assms(2) that by (subst si_getChar_line [OF b]) (simp add: si_printError_def eof)
  show ?thesis using 1 2 by blast
qed

theorem C7_si_getChar_by_length_witness:
  "length ''wxyz'' = CHAR_INPUT_BUFFER_SIZE \<and> NL \<notin> set ''ab'' \<and> NL \<notin> set ''c'' \<and>
   NL \<notin> set [] \<and> ''ab'' \<noteq> [] \<and>
   si_getChar ''wxyz'' 0 \<lparr>stdin = ''ab'' @ NL # ''c'' @ [NL], stderr = [], malloc_ok = True\<rparr> =
     (99, \<lparr>stdin = [], stderr = [''Invalid input. Please enter a single character.\<newline>''],
           malloc_ok = True\<rparr>) \<and>
   si_getChar ''wxyz'' 0 \<lparr>stdin = NL # ''c'', stderr = [], malloc_ok = True\<rparr> =
     (10, \<lparr>stdin = ''c'', stderr = [], malloc_ok = True\<rparr>) \<and>
   si_getChar ''wxyz'' 0 \<lparr>stdin = ''ab'', stderr = [], malloc_ok = True\<rparr> =
     (EOF, \<lparr>stdin = [], stderr = [''Invalid input. Please enter a single character.\<newline>''],
            malloc_ok = True\<rparr>)"
  using C7_si_getChar_by_length [where buffer = "''wxyz''" and line = "''ab''" and n = 0
          and s = "\<lparr>stdin = [], stderr = [], malloc_ok = True\<rparr>" and rest = "''c'' @ [NL]"]
        C7_si_getChar_by_length [where buffer = "''wxyz''" and line = "''c''" and n = 0
          and s = "\<lparr>stdin = [],
                    stderr = [''Invalid input. Please enter a single character.\<newline>''],
                    malloc_ok = True\<rparr>" and rest = "[]"]
        C7_si_getChar_by_length [where buffer = "''wxyz''" and line = "[]" and n = 0
          and s = "\<lparr>stdin = [], stderr = [], malloc_ok = True\<rparr>" and rest = "''c''"]
  by (simp add: NL_def CHAR_INPUT_BUFFER_SIZE_def)

lemma si_getBool_eof:
  assumes "length buffer = 4" and "stdin t = []"
  shows "si_getBool buffer n t =
         (False, si_printError ''EOF detected. Returning false by default.\<newline>'' t)"
  using assms(2) by (subst si_getBool_line [OF assms(1)]) simp

lemma si_getBool_last_char:
  assumes "length buffer = 4" and "ch \<noteq> NL"
  shows "si_getBool buffer n (s\<lparr>stdin := [ch]\<rparr>) =
           (if ch = CHR ''y'' \<or> ch = CHR ''Y'' then (True, s\<lparr>stdin := []\<rparr>)
            else if ch = CHR ''n'' \<or> ch = CHR ''N'' then (False, s\<lparr>stdin := []\<rparr>)
            else (False,
                  s\<lparr>stdin := [],
                    stderr := stderr s @
                      [''Invalid input. Enter 'y' or 'n'.\<newline>'',
                       ''EOF detected. Returning false by default.\<newline>'']\<rparr>))"
proof -
  have l: "NL \<notin> set [ch]" "[ch] \<noteq> []" using assms(2) by simp_all
  have e: "si_getBool buffer n
             (si_printError ''Invalid input. Enter 'y' or 'n'.\<newline>'' (s\<lparr>stdin := []\<rparr>)) =
           (False,
            s\<lparr>stdin := [],
              stderr := stderr s @
                [''Invalid input. Enter 'y' or 'n'.\<newline>'',
                 ''EOF detected. Returning false by default.\<newline>'']\<rparr>)"
    by (subst si_getBool_eof [OF assms(1)]) (simp_all add: si_printError_def)
  show ?thesis
    using si_getBool_line [OF assms(1), of n "s\<lparr>stdin := [ch]\<rparr>"]
    unfolding line_state_eof [OF l] by (simp add: e)
qed

lemma si_getBool_last_long:
  assumes "length buffer = 4" and "NL \<notin> set line" and "2 \<le> length line"
  shows "si_getBool buffer n (s\<lparr>stdin := line\<rparr>) =
           (False,
            s\<lparr>stdin := [],
              stderr := stderr s @
                [if length line < 3
                 then ''Invalid input. Please enter a single character.\<newline>''
                 else ''Input exceeding buffer size. Try again.\<newline>'',
                 ''EOF detected. Returning false by default.\<newline>'']\<rparr>)"
proof -
  have ne: "line \<noteq> ''Y''" "line \<noteq> ''y''" "line \<noteq> ''N''" "line \<noteq> ''n''"
    "\<not> length line \<le> 1" "\<not> length line \<le> Suc 0" "line \<noteq> []"
    using assms(3) by auto
  have e: "si_getBool buffer n (si_printError msg (s\<lparr>stdin := []\<rparr>)) =
           (False,
            s\<lparr>stdin := [],
              stderr := stderr s @ [msg, ''EOF detected. Returning false by default.\<newline>'']\<rparr>)"
    for msg
    by (subst si_getBool_eof [OF assms(1)]) (simp_all add: si_printError_def)
  show ?thesis
    using si_getBool_line [OF assms(1), of n "s\<lparr>stdin := line\<rparr>"]
    unfolding line_state_eof [OF assms(2) ne(7)] by (simp add: ne e)
qed

text \<open>
  C8. For every input sequence, by its first line: \<^verbatim>\<open>si_getBool\<close> returns true for a
  one-character line \<open>y\<close> or \<open>Y\<close> and false for \<open>n\<close> or \<open>N\<close>; any other character that
  \<^verbatim>\<open>si_getChar\<close> accepts (another one-byte line, or the newline value of an empty line)
  is rejected with the diagnostic and the accessor goes on with the next line; a line of
  two or more bytes is rejected inside \<^verbatim>\<open>si_getChar\<close> with its diagnostic and the
  accessor goes on as well; at end-of-stream it writes a diagnostic and returns false, an
  ordinary value of its type. A last line that ends with the stream instead of a newline
  is read in the same way: \<open>y\<close>, \<open>Y\<close>, \<open>n\<close> and \<open>N\<close> are answered, and after any other
  last line the retry meets the end of the stream and returns false with both
  diagnostics.
\<close>

theorem C8_si_getBool:
  assumes "length buffer = CHAR_INPUT_BUFFER_SIZE" and "ch \<noteq> NL"
  shows "si_getBool buffer n (s\<lparr>stdin := ch # NL # rest\<rparr>) =
           (if ch = CHR ''y'' \<or> ch = CHR ''Y'' then (True, s\<lparr>stdin := rest\<rparr>)
            else if ch = CHR ''n'' \<or> ch = CHR ''N'' then (False, s\<lparr>stdin := rest\<rparr>)
            else si_getBool buffer n
                   (s\<lparr>stdin := rest,
                      stderr := stderr s @ [''Invalid input. Enter 'y' or 'n'.\<newline>'']\<rparr>)) \<and>
         si_getBool buffer n (s\<lparr>stdin := NL # rest\<rparr>) =
           si_getBool buffer n
             (s\<lparr>stdin := rest,
                stderr := stderr s @ [''Invalid input. Enter 'y' or 'n'.\<newline>'']\<rparr>) \<and>
         (NL \<notin> set line \<and> 2 \<le> length line \<longrightarrow>
          si_getBool buffer n (s\<lparr>stdin := line @ NL # rest\<rparr>) =
            si_getBool buffer n
              (s\<lparr>stdin := rest,
                 stderr := stderr s @
                   [if length line < 3
                    then ''Invalid input. Please enter a single character.\<newline>''
                    else ''Input exceeding buffer size. Try again.\<newline>'']\<rparr>)) \<and>
         si_getBool buffer n (s\<lparr>stdin := []\<rparr>) =
           (False, s\<lparr>stdin := [],
                     stderr := stderr s @ [''EOF detected. Returning false by default.\<newline>'']\<rparr>) \<and>
         si_getBool buffer n (s\<lparr>stdin := [ch]\<rparr>) =
           (if ch = CHR ''y'' \<or> ch = CHR ''Y'' then (True, s\<lparr>stdin := []\<rparr>)
            else if ch = CHR ''n'' \<or> ch = CHR ''N'' then (False, s\<lparr>stdin := []\<rparr>)
            else (False,
                  s\<lparr>stdin := [],
                    stderr := stderr s @
                      [''Invalid input. Enter 'y' or 'n'.\<newline>'',
                       ''EOF detected. Returning false by default.\<newline>'']\<rparr>)) \<and>
         (NL \<notin> set line \<and> 2 \<le> length line \<longrightarrow>
          si_getBool buffer n (s\<lparr>stdin := line\<rparr>) =
            (False,
             s\<lparr>stdin := [],
               stderr := stderr s @
                 [if length line < 3
                  then ''Invalid input. Please enter a single character.\<newline>''
                  else ''Input exceeding buffer size. Try again.\<newline>'',
                  ''EOF detected. Returning false by default.\<newline>'']\<rparr>))"
proof -
  have b: "length buffer = 4" using assms(1) by (simp add: CHAR_INPUT_BUFFER_SIZE_def)
  have l: "NL \<notin> set [ch]" using assms(2) by simp
  have c: "cur_line (s\<lparr>stdin := ch # NL # rest\<rparr>) = [ch]"
    "next_line (s\<lparr>stdin := ch # NL # rest\<rparr>) = s\<lparr>stdin := rest\<rparr>"
    using cur_line_simps(1) [OF l, where s = s and rest = rest]
          next_line_simps(1) [OF l, where s = s and rest = rest] by simp_all
  have e: "cur_line (s\<lparr>stdin := NL # rest\<rparr>) = []"
    "next_line (s\<lparr>stdin := NL # rest\<rparr>) = s\<lparr>stdin := rest\<rparr>"
    by simp_all
  have 1: "si_getBool buffer n (s\<lparr>stdin := ch # NL # rest\<rparr>) =
           (if ch = CHR ''y'' \<or> ch = CHR ''Y'' then (True, s\<lparr>stdin := rest\<rparr>)
            else if ch = CHR ''n'' \<or> ch = CHR ''N'' then (False, s\<lparr>stdin := rest\<rparr>)
            else si_getBool buffer n
                   (s\<lparr>stdin := rest,
                      stderr := stderr s @ [''Invalid input. Enter 'y' or 'n'.\<newline>'']\<rparr>))"
    using si_getBool_line [OF b, of n "s\<lparr>stdin := ch # NL # rest\<rparr>"]
    unfolding c by (simp add: si_printError_def)
  have 2: "si_getBool buffer n (s\<lparr>stdin := NL # rest\<rparr>) =
           si_getBool buffer n
             (s\<lparr>stdin := rest,
                stderr := stderr s @ [''Invalid input. Enter 'y' or 'n'.\<newline>'']\<rparr>)"
    by (subst si_getBool_line [OF b]) (simp add: e si_printError_def)
  have 3: "si_getBool buffer n (s\<lparr>stdin := line @ NL # rest\<rparr>) =
            si_getBool buffer n
              (s\<lparr>stdin := rest,
                 stderr := stderr s @
                   [if length line < 3
                    then ''Invalid input. Please enter a single character.\<newline>''
                    else ''Input exceeding buffer size. Try again.\<newline>'']\<rparr>)"
    if "NL \<notin> set line" and "2 \<le> length line"
  proof -
    have ne: "line \<noteq> ''Y''" "line \<noteq> ''y''" "line \<noteq> ''N''" "line \<noteq> ''n''"
      "\<not> length line \<le> 1" "\<not> length line \<le> Suc 0"
      using that(2) by auto
    show ?thesis
      using si_getBool_line [OF b, of n "s\<lparr>stdin := line @ NL # rest\<rparr>"]
      unfolding line_state [OF that(1)] by (simp add: ne si_printError_def)
  qed
  have 4: "si_getBool buffer n (s\<lparr>stdin := []\<rparr>) =
           (False, s\<lparr>stdin := [],
                     stderr := stderr s @ [''EOF detected. Returning false by default.\<newline>'']\<rparr>)"
    by (subst si_getBool_line [OF b]) (simp add: si_printError_def)
  note 5 = si_getBool_last_char [OF b assms(2), of n s]
  have 6: "si_getBool buffer n (s\<lparr>stdin := line\<rparr>) =
            (False,
             s\<lparr>stdin := [],
               stderr := stderr s @
                 [if length line < 3
                  then ''Invalid input. Please enter a single character.\<newline>''
                  else ''Input exceeding buffer size. Try again.\<newline>'',
                  ''EOF detected. Returning false by default.\<newline>'']\<rparr>)"
    if "NL \<notin> set line" and "2 \<le> length line"
    using that by (rule si_getBool_last_long [OF b])
  show ?thesis using 1 2 3 4 5 6 by blast
qed

theorem C8_si_getBool_witness:
  "length ''wxyz'' = CHAR_INPUT_BUFFER_SIZE \<and> CHR ''x'' \<noteq> NL \<and> CHR ''Y'' \<noteq> NL \<and>
   CHR ''y'' \<noteq> NL \<and> NL \<notin> set ''yes'' \<and> 2 \<le> length ''yes'' \<and>
   si_getBool ''wxyz'' 0
     \<lparr>stdin = ''yes'' @ NL # CHR ''x'' # NL # CHR ''Y'' # NL # ''z'', stderr = [],
      malloc_ok = True\<rparr> =
     (True,
      \<lparr>stdin = ''z'',
       stderr = [''Input exceeding buffer size. Try again.\<newline>'',
                 ''Invalid input. Enter 'y' or 'n'.\<newline>''],
       malloc_ok = True\<rparr>) \<and>
   si_getBool ''wxyz'' 0 \<lparr>stdin = [], stderr = [], malloc_ok = True\<rparr> =
     (False, \<lparr>stdin = [], stderr = [''EOF detected. Returning false by default.\<newline>''],
              malloc_ok = True\<rparr>) \<and>
   si_getBool ''wxyz'' 0 \<lparr>stdin = ''y'', stderr = [], malloc_ok = True\<rparr> =
     (True, \<lparr>stdin = [], stderr = [], malloc_ok = True\<rparr>) \<and>
   si_getBool ''wxyz'' 0 \<lparr>stdin = ''x'', stderr = [], malloc_ok = True\<rparr> =
     (False,
      \<lparr>stdin = [],
       stderr = [''Invalid input. Enter 'y' or 'n'.\<newline>'',
                 ''EOF detected. Returning false by default.\<newline>''],
       malloc_ok = True\<rparr>) \<and>
   si_getBool ''wxyz'' 0 \<lparr>stdin = ''yes'', stderr = [], malloc_ok = True\<rparr> =
     (False,
      \<lparr>stdin = [],
       stderr = [''Input exceeding buffer size. Try again.\<newline>'',
                 ''EOF detected. Returning false by default.\<newline>''],
       malloc_ok = True\<rparr>)"
  using C8_si_getBool [where buffer = "''wxyz''" and ch = "CHR ''x''" and n = 0
          and s = "\<lparr>stdin = [], stderr = [], malloc_ok = True\<rparr>"
          and rest = "CHR ''x'' # NL # CHR ''Y'' # NL # ''z''" and line = "''yes''"]
        C8_si_getBool [where buffer = "''wxyz''" and ch = "CHR ''x''" and n = 0
          and s = "\<lparr>stdin = [], stderr = [''Input exceeding buffer size. Try again.\<newline>''],
                    malloc_ok = True\<rparr>"
          and rest = "CHR ''Y'' # NL # ''z''" and line = "''yes''"]
        C8_si_getBool [where buffer = "''wxyz''" and ch = "CHR ''Y''" and n = 0
          and s = "\<lparr>stdin = [],
                    stderr = [''Input exceeding buffer size. Try again.\<newline>'',
                              ''Invalid input. Enter 'y' or 'n'.\<newline>''],
                    malloc_ok = True\<rparr>"
          and rest = "''z''" and line = "''yes''"]
        C8_si_getBool [where buffer = "''wxyz''" and ch = "CHR ''y''" and n = 0
          and s = "\<lparr>stdin = [], stderr = [], malloc_ok = True\<rparr>"
          and rest = "[]" and line = "''yes''"]
  by (simp add: NL_def CHAR_INPUT_BUFFER_SIZE_def)

section \<open>Properties of the string accessors\<close>

lemma si_getString_line:
  assumes "length buffer = 128"
  shows "si_getString buffer n s =
     (if stdin s = [] then (\<lparr>data = None, len = 0\<rparr>, s)
      else if 128 \<le> length (cur_line s) then
        (\<lparr>data = None, len = 0\<rparr>,
         si_printError ''Input exceeding buffer size. Try again.\<newline>'' (next_line s))
      else if \<not> malloc_ok s then
        (\<lparr>data = None, len = 0\<rparr>, si_printError ''Memory allocation failed.\<newline>'' (next_line s))
      else
        (\<lparr>data = Some (if cur_line s = [] then [None] else map Some (cur_line s)),
          len = length (cur_line s)\<rparr>, next_line s))"
proof -
  have rb: "si_readByte buffer 128 n s =
     (if stdin s = [] then (EOF, buffer, 0, s)
      else if length (cur_line s) < 128
      then (0, cur_line s @ drop (length (cur_line s)) buffer, length (cur_line s), next_line s)
      else (1, take 128 (cur_line s) @ drop 128 buffer, 128,
            si_printError ''Input exceeding buffer size. Try again.\<newline>'' (next_line s)))"
    using assms by (intro si_readByte_total) simp_all
  show ?thesis
    by (simp add: si_getString_def rb INPUT_BUFFER_SIZE_def EOF_def malloc_def memcpy_def)
qed

lemma si_getCString_line:
  assumes "length buffer = 128"
  shows "si_getCString buffer n s =
     (if stdin s = [] then (None, s)
      else if 127 \<le> length (cur_line s) then
        (None, si_printError ''Input exceeding buffer size. Try again.\<newline>'' (next_line s))
      else if \<not> malloc_ok s then
        (None, si_printError ''Memory allocation failed.\<newline>'' (next_line s))
      else (Some (map Some (cur_line s @ [NUL])), next_line s))"
proof -
  have rb: "si_readByte buffer 127 n s =
     (if stdin s = [] then (EOF, buffer, 0, s)
      else if length (cur_line s) < 127
      then (0, cur_line s @ drop (length (cur_line s)) buffer, length (cur_line s), next_line s)
      else (1, take 127 (cur_line s) @ drop 127 buffer, 127,
            si_printError ''Input exceeding buffer size. Try again.\<newline>'' (next_line s)))"
    using assms by (intro si_readByte_total) simp_all
  have upd: "length xs < 127 \<Longrightarrow>
      take (Suc (length xs)) ((xs @ drop (length xs) buffer)[length xs := NUL]) = xs @ [NUL]"
    for xs :: "char list"
    using assms by (simp add: list_update_append take_Suc_conv_app_nth)
  show ?thesis
    by (simp add: si_getCString_def rb INPUT_BUFFER_SIZE_def EOF_def malloc_def memcpy_def
                  Let_def upd)
qed

text \<open>
  C9. For the input line \<open>hi\<close>, when the allocation succeeds: \<^verbatim>\<open>si_getString\<close> returns
  a block of exactly two bytes, \<open>h\<close> and \<open>i\<close>, with length 2 and no terminator;
  \<^verbatim>\<open>si_getCString\<close> returns a block of three bytes, \<open>h\<close>, \<open>i\<close> and NUL. Both consume
  the line and its newline.
\<close>

theorem C9_hi_round_trip:
  assumes "length buffer = INPUT_BUFFER_SIZE" and "malloc_ok s"
  shows "si_getString buffer n (s\<lparr>stdin := ''hi'' @ NL # rest\<rparr>) =
           (\<lparr>data = Some [Some (CHR ''h''), Some (CHR ''i'')], len = 2\<rparr>, s\<lparr>stdin := rest\<rparr>) \<and>
         si_getCString buffer n (s\<lparr>stdin := ''hi'' @ NL # rest\<rparr>) =
           (Some [Some (CHR ''h''), Some (CHR ''i''), Some NUL], s\<lparr>stdin := rest\<rparr>)"
proof -
  have b: "length buffer = 128" using assms(1) by (simp add: INPUT_BUFFER_SIZE_def)
  have l: "NL \<notin> set ''hi''" by (simp add: NL_def)
  have c: "cur_line (s\<lparr>stdin := ''hi'' @ NL # rest\<rparr>) = ''hi''"
    "next_line (s\<lparr>stdin := ''hi'' @ NL # rest\<rparr>) = s\<lparr>stdin := rest\<rparr>"
    using cur_line_simps(1) [OF l] next_line_simps(1) [OF l] by simp_all
  show ?thesis
    using si_getString_line [OF b, of n "s\<lparr>stdin := ''hi'' @ NL # rest\<rparr>"]
          si_getCString_line [OF b, of n "s\<lparr>stdin := ''hi'' @ NL # rest\<rparr>"] assms(2)
    unfolding c by simp
qed

theorem C9_hi_round_trip_witness:
  "length (replicate 128 (CHR ''#'')) = INPUT_BUFFER_SIZE \<and>
   malloc_ok \<lparr>stdin = [], stderr = [], malloc_ok = True\<rparr> \<and>
   si_getString (replicate 128 (CHR ''#'')) 0
     \<lparr>stdin = ''hi'' @ NL # ''more'', stderr = [], malloc_ok = True\<rparr> =
     (\<lparr>data = Some [Some (CHR ''h''), Some (CHR ''i'')], len = 2\<rparr>,
      \<lparr>stdin = ''more'', stderr = [], malloc_ok = True\<rparr>) \<and>
   si_getCString (replicate 128 (CHR ''#'')) 0
     \<lparr>stdin = ''hi'' @ NL # ''more'', stderr = [], malloc_ok = True\<rparr> =
     (Some [Some (CHR ''h''), Some (CHR ''i''), Some NUL],
      \<lparr>stdin = ''more'', stderr = [], malloc_ok = True\<rparr>)"
  using C9_hi_round_trip [where buffer = "replicate 128 (CHR ''#'')" and n = 0
          and s = "\<lparr>stdin = [], stderr = [], malloc_ok = True\<rparr>" and rest = "''more''"]
  by (simp add: INPUT_BUFFER_SIZE_def)

text \<open>
  C10. When \<^verbatim>\<open>si_getString\<close> reads an empty line and the allocation succeeds, the
  result has a non-null \<open>data\<close> (a block of one byte, never written) and \<open>len = 0\<close>. At
  end-of-stream and on an overrun the result is the sentinel with \<open>data\<close> null and
  \<open>len = 0\<close>. The two results differ, so the caller can tell them apart by \<open>data\<close>.
\<close>

theorem C10_empty_line_is_not_the_sentinel:
  assumes "length buffer = INPUT_BUFFER_SIZE" and "malloc_ok s"
  shows "si_getString buffer n (s\<lparr>stdin := NL # rest\<rparr>) =
           (\<lparr>data = Some [None], len = 0\<rparr>, s\<lparr>stdin := rest\<rparr>) \<and>
         si_getString buffer n (s\<lparr>stdin := []\<rparr>) = (\<lparr>data = None, len = 0\<rparr>, s\<lparr>stdin := []\<rparr>) \<and>
         (NL \<notin> set line \<and> INPUT_BUFFER_SIZE \<le> length line \<longrightarrow>
          fst (si_getString buffer n (s\<lparr>stdin := line @ NL # rest\<rparr>)) = \<lparr>data = None, len = 0\<rparr>) \<and>
         data (fst (si_getString buffer n (s\<lparr>stdin := NL # rest\<rparr>))) \<noteq>
         data (fst (si_getString buffer n (s\<lparr>stdin := []\<rparr>)))"
proof -
  have b: "length buffer = 128" using assms(1) by (simp add: INPUT_BUFFER_SIZE_def)
  have 1: "si_getString buffer n (s\<lparr>stdin := NL # rest\<rparr>) =
           (\<lparr>data = Some [None], len = 0\<rparr>, s\<lparr>stdin := rest\<rparr>)"
    using si_getString_line [OF b, of n "s\<lparr>stdin := NL # rest\<rparr>"] assms(2) by simp
  have 2: "si_getString buffer n (s\<lparr>stdin := []\<rparr>) = (\<lparr>data = None, len = 0\<rparr>, s\<lparr>stdin := []\<rparr>)"
    using si_getString_line [OF b, of n "s\<lparr>stdin := []\<rparr>"] by simp
  have 3: "fst (si_getString buffer n (s\<lparr>stdin := line @ NL # rest\<rparr>)) = \<lparr>data = None, len = 0\<rparr>"
    if "NL \<notin> set line" and "INPUT_BUFFER_SIZE \<le> length line"
    using si_getString_line [OF b, of n "s\<lparr>stdin := line @ NL # rest\<rparr>"] that
    by (simp add: INPUT_BUFFER_SIZE_def)
  show ?thesis
    using 3 by (simp add: 1 2)
qed

theorem C10_empty_line_is_not_the_sentinel_witness:
  "length (replicate 128 (CHR ''#'')) = INPUT_BUFFER_SIZE \<and>
   malloc_ok \<lparr>stdin = [], stderr = [], malloc_ok = True\<rparr> \<and>
   NL \<notin> set (replicate 128 (CHR ''a'')) \<and>
   INPUT_BUFFER_SIZE \<le> length (replicate 128 (CHR ''a'')) \<and>
   si_getString (replicate 128 (CHR ''#'')) 0
     \<lparr>stdin = NL # ''more'', stderr = [], malloc_ok = True\<rparr> =
     (\<lparr>data = Some [None], len = 0\<rparr>, \<lparr>stdin = ''more'', stderr = [], malloc_ok = True\<rparr>) \<and>
   si_getString (replicate 128 (CHR ''#'')) 0 \<lparr>stdin = [], stderr = [], malloc_ok = True\<rparr> =
     (\<lparr>data = None, len = 0\<rparr>, \<lparr>stdin = [], stderr = [], malloc_ok = True\<rparr>) \<and>
   fst (si_getString (replicate 128 (CHR ''#'')) 0
     \<lparr>stdin = replicate 128 (CHR ''a'') @ NL # ''more'', stderr = [], malloc_ok = True\<rparr>) =
     \<lparr>data = None, len = 0\<rparr>"
  using C10_empty_line_is_not_the_sentinel [where buffer = "replicate 128 (CHR ''#'')" and n = 0
          and s = "\<lparr>stdin = [], stderr = [], malloc_ok = True\<rparr>" and rest = "''more''"
          and line = "replicate 128 (CHR ''a'')"]
  by (simp add: INPUT_BUFFER_SIZE_def NL_def)

section \<open>Properties of the integer and filtered-character accessors\<close>

lemma takeWhile_stop:
  "\<not> P y \<Longrightarrow> takeWhile P (xs @ y # ys) = takeWhile P xs"
  by (induction xs) auto

lemma c_str_staged:
  assumes "length line < length buffer"
  shows "c_str ((line @ drop (length line) buffer)[length line := NUL]) = c_str line"
proof -
  have d: "drop (length line) buffer = buffer ! length line # drop (Suc (length line)) buffer"
    using assms by (simp add: Cons_nth_drop_Suc)
  have "(line @ drop (length line) buffer)[length line := NUL] =
        line @ NUL # drop (Suc (length line)) buffer"
    by (subst d) (simp add: list_update_append)
  then show ?thesis
    by (simp add: c_str_def takeWhile_stop)
qed

lemma subject_bound:
  "subject str = (start, neg, ds) \<Longrightarrow> start + length ds \<le> length str"
proof -
  assume a: "subject str = (start, neg, ds)"
  define ws where "ws = length (takeWhile isspace str)"
  define r where "r = drop ws str"
  define sgn :: nat where
    "sgn = (case r of [] \<Rightarrow> 0 | x # _ \<Rightarrow> if x = CHR ''-'' \<or> x = CHR ''+'' then 1 else 0)"
  have 1: "ws \<le> length str" by (simp add: ws_def length_takeWhile_le)
  have 2: "sgn \<le> length r" by (cases r) (auto simp: sgn_def)
  have 3: "length (takeWhile isdigit (drop sgn r)) \<le> length r - sgn"
    using length_takeWhile_le [of isdigit "drop sgn r"] by simp
  have 4: "length r = length str - ws" by (simp add: r_def)
  from a have "start = ws + sgn" "ds = takeWhile isdigit (drop sgn r)"
    by (simp_all add: subject_def Let_def ws_def r_def sgn_def)
  with 1 2 3 4 show ?thesis by simp
qed

lemma strto_signed_endptr:
  "strto_signed lo hi nptr = (v, e, er) \<Longrightarrow> e \<le> length (c_str nptr)"
  by (auto simp: strto_signed_def Let_def split: prod.splits if_splits dest: subject_bound)

lemma strto_unsigned_endptr:
  "strto_unsigned hi nptr = (v, e, er) \<Longrightarrow> e \<le> length (c_str nptr)"
  by (auto simp: strto_unsigned_def Let_def split: prod.splits if_splits dest: subject_bound)

lemma c_str_le: "length (c_str xs) \<le> length xs"
  by (simp add: c_str_def length_takeWhile_le)

lemma c_str_idem [simp]: "c_str (c_str xs) = c_str xs"
  by (simp add: c_str_def)

lemma staged_nth:
  assumes "length line < length buffer" and "e \<le> length line"
  shows "(line @ drop (length line) buffer)[length line := NUL] ! e = (line @ [NUL]) ! e"
  using assms by (cases "e = length line") (auto simp: nth_append)

lemma strto_signed_c_str:
  "c_str a = c_str b \<Longrightarrow> strto_signed lo hi a = strto_signed lo hi b"
  by (simp add: strto_signed_def)

lemma strto_unsigned_c_str:
  "c_str a = c_str b \<Longrightarrow> strto_unsigned hi a = strto_unsigned hi b"
  by (simp add: strto_unsigned_def)

lemma si_readByte_127:
  assumes "length buffer = 128"
  shows "si_readByte buffer 127 n s =
     (if stdin s = [] then (EOF, buffer, 0, s)
      else if length (cur_line s) < 127
      then (0, cur_line s @ drop (length (cur_line s)) buffer, length (cur_line s), next_line s)
      else (1, take 127 (cur_line s) @ drop 127 buffer, 127,
            si_printError ''Input exceeding buffer size. Try again.\<newline>'' (next_line s)))"
  using assms by (simp add: si_readByte_total)

lemma length_staged [simp]: "length line \<le> length buffer \<Longrightarrow> length (staged line buffer) = length buffer"
  by (simp add: staged_def)

lemma staged_signed:
  assumes "length line < length buffer"
  shows "strto_signed lo hi (staged line buffer) = strto_signed lo hi line"
  unfolding staged_def by (rule strto_signed_c_str) (simp add: c_str_staged [OF assms])

lemma staged_unsigned:
  assumes "length line < length buffer"
  shows "strto_unsigned hi (staged line buffer) = strto_unsigned hi line"
  unfolding staged_def by (rule strto_unsigned_c_str) (simp add: c_str_staged [OF assms])

lemma staged_at_signed:
  assumes "length line < length buffer" and "strto_signed lo hi line = (v, e, er)"
  shows "staged line buffer ! e = (line @ [NUL]) ! e"
proof -
  have "e \<le> length (c_str line)" using assms(2) by (rule strto_signed_endptr)
  then have "e \<le> length line" using c_str_le [of line] by simp
  with assms(1) show ?thesis unfolding staged_def by (rule staged_nth)
qed

lemma staged_at_unsigned:
  assumes "length line < length buffer" and "strto_unsigned hi line = (v, e, er)"
  shows "staged line buffer ! e = (line @ [NUL]) ! e"
proof -
  have "e \<le> length (c_str line)" using assms(2) by (rule strto_unsigned_endptr)
  then have "e \<le> length line" using c_str_le [of line] by simp
  with assms(1) show ?thesis unfolding staged_def by (rule staged_nth)
qed

lemma si_getInt_unfold:
  assumes "length buffer = 128"
  shows "si_getInt buffer n s =
     (if stdin s = [] then (INT_MIN, s)
      else if 127 \<le> length (cur_line s) then
        (INT_MIN, si_printError ''Input exceeding buffer size. Try again.\<newline>'' (next_line s))
      else
        (case strtol (cur_line s) of
           (v, e, er) \<Rightarrow>
             if e = 0 \<or> (cur_line s @ [NUL]) ! e \<noteq> NUL \<or> er \<or> v \<noteq> int_of_long v
             then si_getInt (staged (cur_line s) buffer) (length (cur_line s))
                    (si_printError ''Invalid input. Try again.\<newline>'' (next_line s))
             else (int_of_long v, next_line s)))"
proof (cases "stdin s \<noteq> [] \<and> length (cur_line s) < 127")
  case False
  then show ?thesis
    by (subst si_getInt.simps) (auto simp: si_readByte_127 [OF assms] EOF_def INPUT_BUFFER_SIZE_def)
next
  case True
  obtain v e er where p: "strtol (cur_line s) = (v, e, er)"
    by (cases "strtol (cur_line s)") auto
  have l: "length (cur_line s) < length buffer" using True assms by simp
  have p': "strtol (staged (cur_line s) buffer) = (v, e, er)"
    using p staged_signed [OF l] by (simp add: strtol_def)
  have at: "staged (cur_line s) buffer ! e = (cur_line s @ [NUL]) ! e"
    using p by (intro staged_at_signed [OF l]) (simp add: strtol_def)
  have at0: "staged (cur_line s) buffer ! 0 = (cur_line s @ [NUL]) ! 0"
    using l unfolding staged_def by (intro staged_nth) simp_all
  show ?thesis
    using True
    by (subst si_getInt.simps)
       (simp add: si_readByte_127 [OF assms] INPUT_BUFFER_SIZE_def staged_def [symmetric] p p' at at0)
qed

lemma si_getInt_indep:
  "length b1 = 128 \<Longrightarrow> length b2 = 128 \<Longrightarrow> si_getInt b1 l1 s = si_getInt b2 l2 s"
proof (induction "length (stdin s)" arbitrary: s b1 b2 l1 l2 rule: less_induct)
  case less
  have ih: "\<And>msg c1 c2 k1 k2. length c1 = 128 \<Longrightarrow> length c2 = 128 \<Longrightarrow> stdin s \<noteq> [] \<Longrightarrow>
      si_getInt c1 k1 (si_printError msg (next_line s)) =
      si_getInt c2 k2 (si_printError msg (next_line s))"
    using less.hyps next_line_shorter by simp
  show ?case
    by (subst si_getInt_unfold [OF less.prems(1)], subst si_getInt_unfold [OF less.prems(2)])
       (auto simp: less.prems split: prod.splits intro!: ih)
qed

lemma si_getInt_line:
  assumes "length buffer = 128"
  shows "si_getInt buffer n s =
     (if stdin s = [] then (INT_MIN, s)
      else if 127 \<le> length (cur_line s) then
        (INT_MIN, si_printError ''Input exceeding buffer size. Try again.\<newline>'' (next_line s))
      else
        (case strtol (cur_line s) of
           (v, e, er) \<Rightarrow>
             if e = 0 \<or> (cur_line s @ [NUL]) ! e \<noteq> NUL \<or> er \<or> v \<noteq> int_of_long v
             then si_getInt buffer n
                    (si_printError ''Invalid input. Try again.\<newline>'' (next_line s))
             else (int_of_long v, next_line s)))"
proof -
  have a: "length (cur_line s) < 127 \<Longrightarrow>
      si_getInt (staged (cur_line s) buffer) (length (cur_line s)) t = si_getInt buffer n t" for t
    using assms by (intro si_getInt_indep) simp_all
  show ?thesis
    by (subst si_getInt_unfold [OF assms]) (auto simp: a split: prod.splits)
qed

lemma si_getUInt_unfold:
  assumes "length buffer = 128"
  shows "si_getUInt buffer n s =
     (if stdin s = [] then (UINT_MAX, s)
      else if 127 \<le> length (cur_line s) then
        (UINT_MAX, si_printError ''Input exceeding buffer size. Try again.\<newline>'' (next_line s))
      else
        (case strtoul (cur_line s) of
           (v, e, er) \<Rightarrow>
             if (cur_line s @ [NUL]) ! 0 = CHR ''-''
             then si_getUInt (staged (cur_line s) buffer) (length (cur_line s))
                    (si_printError ''Value can not be negative.\<newline>'' (next_line s))
             else if e = 0 \<or> (cur_line s @ [NUL]) ! e \<noteq> NUL \<or> er \<or> UINT_MAX < v
             then si_getUInt (staged (cur_line s) buffer) (length (cur_line s))
                    (si_printError ''Invalid input. Try again.\<newline>'' (next_line s))
             else (v, next_line s)))"
proof (cases "stdin s \<noteq> [] \<and> length (cur_line s) < 127")
  case False
  then show ?thesis
    by (subst si_getUInt.simps) (auto simp: si_readByte_127 [OF assms] EOF_def INPUT_BUFFER_SIZE_def)
next
  case True
  obtain v e er where p: "strtoul (cur_line s) = (v, e, er)"
    by (cases "strtoul (cur_line s)") auto
  have l: "length (cur_line s) < length buffer" using True assms by simp
  have p': "strtoul (staged (cur_line s) buffer) = (v, e, er)"
    using p staged_unsigned [OF l] by (simp add: strtoul_def)
  have at: "staged (cur_line s) buffer ! e = (cur_line s @ [NUL]) ! e"
    using p by (intro staged_at_unsigned [OF l]) (simp add: strtoul_def)
  have at0: "staged (cur_line s) buffer ! 0 = (cur_line s @ [NUL]) ! 0"
    using l unfolding staged_def by (intro staged_nth) simp_all
  show ?thesis
    using True
    by (subst si_getUInt.simps)
       (simp add: si_readByte_127 [OF assms] INPUT_BUFFER_SIZE_def staged_def [symmetric] p p' at at0)
qed

lemma si_getUInt_indep:
  "length b1 = 128 \<Longrightarrow> length b2 = 128 \<Longrightarrow> si_getUInt b1 l1 s = si_getUInt b2 l2 s"
proof (induction "length (stdin s)" arbitrary: s b1 b2 l1 l2 rule: less_induct)
  case less
  have ih: "\<And>msg c1 c2 k1 k2. length c1 = 128 \<Longrightarrow> length c2 = 128 \<Longrightarrow> stdin s \<noteq> [] \<Longrightarrow>
      si_getUInt c1 k1 (si_printError msg (next_line s)) =
      si_getUInt c2 k2 (si_printError msg (next_line s))"
    using less.hyps next_line_shorter by simp
  show ?case
    by (subst si_getUInt_unfold [OF less.prems(1)], subst si_getUInt_unfold [OF less.prems(2)])
       (auto simp: less.prems split: prod.splits intro!: ih)
qed

lemma si_getUInt_line:
  assumes "length buffer = 128"
  shows "si_getUInt buffer n s =
     (if stdin s = [] then (UINT_MAX, s)
      else if 127 \<le> length (cur_line s) then
        (UINT_MAX, si_printError ''Input exceeding buffer size. Try again.\<newline>'' (next_line s))
      else
        (case strtoul (cur_line s) of
           (v, e, er) \<Rightarrow>
             if (cur_line s @ [NUL]) ! 0 = CHR ''-''
             then si_getUInt buffer n
                    (si_printError ''Value can not be negative.\<newline>'' (next_line s))
             else if e = 0 \<or> (cur_line s @ [NUL]) ! e \<noteq> NUL \<or> er \<or> UINT_MAX < v
             then si_getUInt buffer n
                    (si_printError ''Invalid input. Try again.\<newline>'' (next_line s))
             else (v, next_line s)))"
proof -
  have a: "length (cur_line s) < 127 \<Longrightarrow>
      si_getUInt (staged (cur_line s) buffer) (length (cur_line s)) t = si_getUInt buffer n t" for t
    using assms by (intro si_getUInt_indep) simp_all
  show ?thesis
    by (subst si_getUInt_unfold [OF assms]) (auto simp: a split: prod.splits)
qed

lemma si_getLong_unfold:
  assumes "length buffer = 128"
  shows "si_getLong buffer n s =
     (if stdin s = [] then (LONG_MIN, s)
      else if 127 \<le> length (cur_line s) then
        (LONG_MIN, si_printError ''Input exceeding buffer size. Try again.\<newline>'' (next_line s))
      else
        (case strtol (cur_line s) of
           (v, e, er) \<Rightarrow>
             if e = 0 \<or> (cur_line s @ [NUL]) ! e \<noteq> NUL \<or> er
             then si_getLong (staged (cur_line s) buffer) (length (cur_line s))
                    (si_printError ''Invalid input. Try again.\<newline>'' (next_line s))
             else (v, next_line s)))"
proof (cases "stdin s \<noteq> [] \<and> length (cur_line s) < 127")
  case False
  then show ?thesis
    by (subst si_getLong.simps) (auto simp: si_readByte_127 [OF assms] EOF_def INPUT_BUFFER_SIZE_def)
next
  case True
  obtain v e er where p: "strtol (cur_line s) = (v, e, er)"
    by (cases "strtol (cur_line s)") auto
  have l: "length (cur_line s) < length buffer" using True assms by simp
  have p': "strtol (staged (cur_line s) buffer) = (v, e, er)"
    using p staged_signed [OF l] by (simp add: strtol_def)
  have at: "staged (cur_line s) buffer ! e = (cur_line s @ [NUL]) ! e"
    using p by (intro staged_at_signed [OF l]) (simp add: strtol_def)
  have at0: "staged (cur_line s) buffer ! 0 = (cur_line s @ [NUL]) ! 0"
    using l unfolding staged_def by (intro staged_nth) simp_all
  show ?thesis
    using True
    by (subst si_getLong.simps)
       (simp add: si_readByte_127 [OF assms] INPUT_BUFFER_SIZE_def staged_def [symmetric] p p' at at0)
qed

lemma si_getLong_indep:
  "length b1 = 128 \<Longrightarrow> length b2 = 128 \<Longrightarrow> si_getLong b1 l1 s = si_getLong b2 l2 s"
proof (induction "length (stdin s)" arbitrary: s b1 b2 l1 l2 rule: less_induct)
  case less
  have ih: "\<And>msg c1 c2 k1 k2. length c1 = 128 \<Longrightarrow> length c2 = 128 \<Longrightarrow> stdin s \<noteq> [] \<Longrightarrow>
      si_getLong c1 k1 (si_printError msg (next_line s)) =
      si_getLong c2 k2 (si_printError msg (next_line s))"
    using less.hyps next_line_shorter by simp
  show ?case
    by (subst si_getLong_unfold [OF less.prems(1)], subst si_getLong_unfold [OF less.prems(2)])
       (auto simp: less.prems split: prod.splits intro!: ih)
qed

lemma si_getLong_line:
  assumes "length buffer = 128"
  shows "si_getLong buffer n s =
     (if stdin s = [] then (LONG_MIN, s)
      else if 127 \<le> length (cur_line s) then
        (LONG_MIN, si_printError ''Input exceeding buffer size. Try again.\<newline>'' (next_line s))
      else
        (case strtol (cur_line s) of
           (v, e, er) \<Rightarrow>
             if e = 0 \<or> (cur_line s @ [NUL]) ! e \<noteq> NUL \<or> er
             then si_getLong buffer n
                    (si_printError ''Invalid input. Try again.\<newline>'' (next_line s))
             else (v, next_line s)))"
proof -
  have a: "length (cur_line s) < 127 \<Longrightarrow>
      si_getLong (staged (cur_line s) buffer) (length (cur_line s)) t = si_getLong buffer n t" for t
    using assms by (intro si_getLong_indep) simp_all
  show ?thesis
    by (subst si_getLong_unfold [OF assms]) (auto simp: a split: prod.splits)
qed

lemma si_getULong_unfold:
  assumes "length buffer = 128"
  shows "si_getULong buffer n s =
     (if stdin s = [] then (ULONG_MAX, s)
      else if 127 \<le> length (cur_line s) then
        (ULONG_MAX, si_printError ''Input exceeding buffer size. Try again.\<newline>'' (next_line s))
      else
        (case strtoul (cur_line s) of
           (v, e, er) \<Rightarrow>
             if e = 0 \<or> (cur_line s @ [NUL]) ! e \<noteq> NUL \<or> er
             then si_getULong (staged (cur_line s) buffer) (length (cur_line s))
                    (si_printError ''Invalid input. Try again.\<newline>'' (next_line s))
             else (v, next_line s)))"
proof (cases "stdin s \<noteq> [] \<and> length (cur_line s) < 127")
  case False
  then show ?thesis
    by (subst si_getULong.simps) (auto simp: si_readByte_127 [OF assms] EOF_def INPUT_BUFFER_SIZE_def)
next
  case True
  obtain v e er where p: "strtoul (cur_line s) = (v, e, er)"
    by (cases "strtoul (cur_line s)") auto
  have l: "length (cur_line s) < length buffer" using True assms by simp
  have p': "strtoul (staged (cur_line s) buffer) = (v, e, er)"
    using p staged_unsigned [OF l] by (simp add: strtoul_def)
  have at: "staged (cur_line s) buffer ! e = (cur_line s @ [NUL]) ! e"
    using p by (intro staged_at_unsigned [OF l]) (simp add: strtoul_def)
  have at0: "staged (cur_line s) buffer ! 0 = (cur_line s @ [NUL]) ! 0"
    using l unfolding staged_def by (intro staged_nth) simp_all
  show ?thesis
    using True
    by (subst si_getULong.simps)
       (simp add: si_readByte_127 [OF assms] INPUT_BUFFER_SIZE_def staged_def [symmetric] p p' at at0)
qed

lemma si_getULong_indep:
  "length b1 = 128 \<Longrightarrow> length b2 = 128 \<Longrightarrow> si_getULong b1 l1 s = si_getULong b2 l2 s"
proof (induction "length (stdin s)" arbitrary: s b1 b2 l1 l2 rule: less_induct)
  case less
  have ih: "\<And>msg c1 c2 k1 k2. length c1 = 128 \<Longrightarrow> length c2 = 128 \<Longrightarrow> stdin s \<noteq> [] \<Longrightarrow>
      si_getULong c1 k1 (si_printError msg (next_line s)) =
      si_getULong c2 k2 (si_printError msg (next_line s))"
    using less.hyps next_line_shorter by simp
  show ?case
    by (subst si_getULong_unfold [OF less.prems(1)], subst si_getULong_unfold [OF less.prems(2)])
       (auto simp: less.prems split: prod.splits intro!: ih)
qed

lemma si_getULong_line:
  assumes "length buffer = 128"
  shows "si_getULong buffer n s =
     (if stdin s = [] then (ULONG_MAX, s)
      else if 127 \<le> length (cur_line s) then
        (ULONG_MAX, si_printError ''Input exceeding buffer size. Try again.\<newline>'' (next_line s))
      else
        (case strtoul (cur_line s) of
           (v, e, er) \<Rightarrow>
             if e = 0 \<or> (cur_line s @ [NUL]) ! e \<noteq> NUL \<or> er
             then si_getULong buffer n
                    (si_printError ''Invalid input. Try again.\<newline>'' (next_line s))
             else (v, next_line s)))"
proof -
  have a: "length (cur_line s) < 127 \<Longrightarrow>
      si_getULong (staged (cur_line s) buffer) (length (cur_line s)) t = si_getULong buffer n t" for t
    using assms by (intro si_getULong_indep) simp_all
  show ?thesis
    by (subst si_getULong_unfold [OF assms]) (auto simp: a split: prod.splits)
qed

lemma si_getLongLong_unfold:
  assumes "length buffer = 128"
  shows "si_getLongLong buffer n s =
     (if stdin s = [] then (LLONG_MIN, s)
      else if 127 \<le> length (cur_line s) then
        (LLONG_MIN, si_printError ''Input exceeding buffer size. Try again.\<newline>'' (next_line s))
      else
        (case strtoll (cur_line s) of
           (v, e, er) \<Rightarrow>
             if e = 0 \<or> (cur_line s @ [NUL]) ! e \<noteq> NUL \<or> er
             then si_getLongLong (staged (cur_line s) buffer) (length (cur_line s))
                    (si_printError ''Invalid input. Try again.\<newline>'' (next_line s))
             else (v, next_line s)))"
proof (cases "stdin s \<noteq> [] \<and> length (cur_line s) < 127")
  case False
  then show ?thesis
    by (subst si_getLongLong.simps) (auto simp: si_readByte_127 [OF assms] EOF_def INPUT_BUFFER_SIZE_def)
next
  case True
  obtain v e er where p: "strtoll (cur_line s) = (v, e, er)"
    by (cases "strtoll (cur_line s)") auto
  have l: "length (cur_line s) < length buffer" using True assms by simp
  have p': "strtoll (staged (cur_line s) buffer) = (v, e, er)"
    using p staged_signed [OF l] by (simp add: strtoll_def)
  have at: "staged (cur_line s) buffer ! e = (cur_line s @ [NUL]) ! e"
    using p by (intro staged_at_signed [OF l]) (simp add: strtoll_def)
  have at0: "staged (cur_line s) buffer ! 0 = (cur_line s @ [NUL]) ! 0"
    using l unfolding staged_def by (intro staged_nth) simp_all
  show ?thesis
    using True
    by (subst si_getLongLong.simps)
       (simp add: si_readByte_127 [OF assms] INPUT_BUFFER_SIZE_def staged_def [symmetric] p p' at at0)
qed

lemma si_getLongLong_indep:
  "length b1 = 128 \<Longrightarrow> length b2 = 128 \<Longrightarrow> si_getLongLong b1 l1 s = si_getLongLong b2 l2 s"
proof (induction "length (stdin s)" arbitrary: s b1 b2 l1 l2 rule: less_induct)
  case less
  have ih: "\<And>msg c1 c2 k1 k2. length c1 = 128 \<Longrightarrow> length c2 = 128 \<Longrightarrow> stdin s \<noteq> [] \<Longrightarrow>
      si_getLongLong c1 k1 (si_printError msg (next_line s)) =
      si_getLongLong c2 k2 (si_printError msg (next_line s))"
    using less.hyps next_line_shorter by simp
  show ?case
    by (subst si_getLongLong_unfold [OF less.prems(1)], subst si_getLongLong_unfold [OF less.prems(2)])
       (auto simp: less.prems split: prod.splits intro!: ih)
qed

lemma si_getLongLong_line:
  assumes "length buffer = 128"
  shows "si_getLongLong buffer n s =
     (if stdin s = [] then (LLONG_MIN, s)
      else if 127 \<le> length (cur_line s) then
        (LLONG_MIN, si_printError ''Input exceeding buffer size. Try again.\<newline>'' (next_line s))
      else
        (case strtoll (cur_line s) of
           (v, e, er) \<Rightarrow>
             if e = 0 \<or> (cur_line s @ [NUL]) ! e \<noteq> NUL \<or> er
             then si_getLongLong buffer n
                    (si_printError ''Invalid input. Try again.\<newline>'' (next_line s))
             else (v, next_line s)))"
proof -
  have a: "length (cur_line s) < 127 \<Longrightarrow>
      si_getLongLong (staged (cur_line s) buffer) (length (cur_line s)) t = si_getLongLong buffer n t" for t
    using assms by (intro si_getLongLong_indep) simp_all
  show ?thesis
    by (subst si_getLongLong_unfold [OF assms]) (auto simp: a split: prod.splits)
qed

lemma si_getULongLong_unfold:
  assumes "length buffer = 128"
  shows "si_getULongLong buffer n s =
     (if stdin s = [] then (ULLONG_MAX, s)
      else if 127 \<le> length (cur_line s) then
        (ULLONG_MAX, si_printError ''Input exceeding buffer size. Try again.\<newline>'' (next_line s))
      else
        (case strtoull (cur_line s) of
           (v, e, er) \<Rightarrow>
             if e = 0 \<or> (cur_line s @ [NUL]) ! e \<noteq> NUL \<or> er
             then si_getULongLong (staged (cur_line s) buffer) (length (cur_line s))
                    (si_printError ''Invalid input. Try again.\<newline>'' (next_line s))
             else (v, next_line s)))"
proof (cases "stdin s \<noteq> [] \<and> length (cur_line s) < 127")
  case False
  then show ?thesis
    by (subst si_getULongLong.simps) (auto simp: si_readByte_127 [OF assms] EOF_def INPUT_BUFFER_SIZE_def)
next
  case True
  obtain v e er where p: "strtoull (cur_line s) = (v, e, er)"
    by (cases "strtoull (cur_line s)") auto
  have l: "length (cur_line s) < length buffer" using True assms by simp
  have p': "strtoull (staged (cur_line s) buffer) = (v, e, er)"
    using p staged_unsigned [OF l] by (simp add: strtoull_def)
  have at: "staged (cur_line s) buffer ! e = (cur_line s @ [NUL]) ! e"
    using p by (intro staged_at_unsigned [OF l]) (simp add: strtoull_def)
  have at0: "staged (cur_line s) buffer ! 0 = (cur_line s @ [NUL]) ! 0"
    using l unfolding staged_def by (intro staged_nth) simp_all
  show ?thesis
    using True
    by (subst si_getULongLong.simps)
       (simp add: si_readByte_127 [OF assms] INPUT_BUFFER_SIZE_def staged_def [symmetric] p p' at at0)
qed

lemma si_getULongLong_indep:
  "length b1 = 128 \<Longrightarrow> length b2 = 128 \<Longrightarrow> si_getULongLong b1 l1 s = si_getULongLong b2 l2 s"
proof (induction "length (stdin s)" arbitrary: s b1 b2 l1 l2 rule: less_induct)
  case less
  have ih: "\<And>msg c1 c2 k1 k2. length c1 = 128 \<Longrightarrow> length c2 = 128 \<Longrightarrow> stdin s \<noteq> [] \<Longrightarrow>
      si_getULongLong c1 k1 (si_printError msg (next_line s)) =
      si_getULongLong c2 k2 (si_printError msg (next_line s))"
    using less.hyps next_line_shorter by simp
  show ?case
    by (subst si_getULongLong_unfold [OF less.prems(1)], subst si_getULongLong_unfold [OF less.prems(2)])
       (auto simp: less.prems split: prod.splits intro!: ih)
qed

lemma si_getULongLong_line:
  assumes "length buffer = 128"
  shows "si_getULongLong buffer n s =
     (if stdin s = [] then (ULLONG_MAX, s)
      else if 127 \<le> length (cur_line s) then
        (ULLONG_MAX, si_printError ''Input exceeding buffer size. Try again.\<newline>'' (next_line s))
      else
        (case strtoull (cur_line s) of
           (v, e, er) \<Rightarrow>
             if e = 0 \<or> (cur_line s @ [NUL]) ! e \<noteq> NUL \<or> er
             then si_getULongLong buffer n
                    (si_printError ''Invalid input. Try again.\<newline>'' (next_line s))
             else (v, next_line s)))"
proof -
  have a: "length (cur_line s) < 127 \<Longrightarrow>
      si_getULongLong (staged (cur_line s) buffer) (length (cur_line s)) t = si_getULongLong buffer n t" for t
    using assms by (intro si_getULongLong_indep) simp_all
  show ?thesis
    by (subst si_getULongLong_unfold [OF assms]) (auto simp: a split: prod.splits)
qed

lemma si_getCharFiltered_loop_unfold:
  assumes "length buffer = 4"
  shows "si_getCharFiltered_loop allowed buffer n s =
     (if stdin s = [] then (EOF, s)
      else if 3 \<le> length (cur_line s) then
        si_getCharFiltered_loop allowed ((take 3 (cur_line s) @ drop 3 buffer)[3 := NUL]) 3
          (si_printError ''Input exceeding buffer size. Try again.\<newline>'' (next_line s))
      else if length (cur_line s) \<noteq> 1 then
        si_getCharFiltered_loop allowed (staged (cur_line s) buffer) (length (cur_line s))
          (si_printError ''Invalid input. Please enter a single character.\<newline>'' (next_line s))
      else if strchr_found allowed (hd (cur_line s)) then (of_char (hd (cur_line s)), next_line s)
      else si_getCharFiltered_loop allowed (staged (cur_line s) buffer) (length (cur_line s))
             (si_printError (''Invalid input. Allowed: '' @ allowed @ ''\<newline>'') (next_line s)))"
proof -
  have rb: "si_readByte buffer 3 n s =
     (if stdin s = [] then (EOF, buffer, 0, s)
      else if length (cur_line s) < 3
      then (0, cur_line s @ drop (length (cur_line s)) buffer, length (cur_line s), next_line s)
      else (1, take 3 (cur_line s) @ drop 3 buffer, 3,
            si_printError ''Input exceeding buffer size. Try again.\<newline>'' (next_line s)))"
    using assms by (intro si_readByte_total) simp_all
  have hd0: "length xs = Suc 0 \<Longrightarrow> (xs @ ys) ! 0 = hd xs" for xs ys :: "char list"
    by (cases xs) auto
  show ?thesis
    by (subst si_getCharFiltered_loop.simps)
       (simp add: rb CHAR_INPUT_BUFFER_SIZE_def EOF_def Let_def hd0 staged_def)
qed

lemma si_getCharFiltered_loop_indep:
  "length b1 = 4 \<Longrightarrow> length b2 = 4 \<Longrightarrow>
   si_getCharFiltered_loop allowed b1 l1 s = si_getCharFiltered_loop allowed b2 l2 s"
proof (induction "length (stdin s)" arbitrary: s b1 b2 l1 l2 rule: less_induct)
  case less
  have ih: "\<And>msg c1 c2 k1 k2. length c1 = 4 \<Longrightarrow> length c2 = 4 \<Longrightarrow> stdin s \<noteq> [] \<Longrightarrow>
      si_getCharFiltered_loop allowed c1 k1 (si_printError msg (next_line s)) =
      si_getCharFiltered_loop allowed c2 k2 (si_printError msg (next_line s))"
    using less.hyps next_line_shorter by simp
  show ?case
    by (subst si_getCharFiltered_loop_unfold [OF less.prems(1)],
        subst si_getCharFiltered_loop_unfold [OF less.prems(2)])
       (auto simp: less.prems intro!: ih)
qed

lemma si_getCharFiltered_loop_line:
  assumes "length buffer = 4"
  shows "si_getCharFiltered_loop allowed buffer n s =
     (if stdin s = [] then (EOF, s)
      else if length (cur_line s) = 1 \<and> strchr_found allowed (hd (cur_line s))
      then (of_char (hd (cur_line s)), next_line s)
      else si_getCharFiltered_loop allowed buffer n
             (si_printError
                (if 3 \<le> length (cur_line s) then ''Input exceeding buffer size. Try again.\<newline>''
                 else if length (cur_line s) \<noteq> 1
                 then ''Invalid input. Please enter a single character.\<newline>''
                 else ''Invalid input. Allowed: '' @ allowed @ ''\<newline>'')
                (next_line s)))"
proof -
  have a: "3 \<le> length line \<Longrightarrow>
      si_getCharFiltered_loop allowed ((take 3 line @ drop 3 buffer)[3 := NUL]) k t =
      si_getCharFiltered_loop allowed buffer n t" for t k line
    using assms by (intro si_getCharFiltered_loop_indep) simp_all
  have b: "length line < 3 \<Longrightarrow>
      si_getCharFiltered_loop allowed (staged line buffer) k t =
      si_getCharFiltered_loop allowed buffer n t" for t k line
    using assms by (intro si_getCharFiltered_loop_indep) simp_all
  show ?thesis
    by (subst si_getCharFiltered_loop_unfold [OF assms]) (simp add: a b)
qed

lemma si_getCharFiltered_line:
  assumes "length buffer = 4" and "allowed \<noteq> []"
  shows "si_getCharFiltered (Some allowed) buffer n s =
     (if stdin s = [] then (Returns EOF, s)
      else if length (cur_line s) = 1 \<and> strchr_found allowed (hd (cur_line s))
      then (Returns (of_char (hd (cur_line s))), next_line s)
      else si_getCharFiltered (Some allowed) buffer n
             (si_printError
                (if 3 \<le> length (cur_line s) then ''Input exceeding buffer size. Try again.\<newline>''
                 else if length (cur_line s) \<noteq> 1
                 then ''Invalid input. Please enter a single character.\<newline>''
                 else ''Invalid input. Allowed: '' @ allowed @ ''\<newline>'')
                (next_line s)))"
proof -
  have "si_getCharFiltered (Some allowed) buffer n t =
        (case si_getCharFiltered_loop allowed buffer n t of (v, s') \<Rightarrow> (Returns v, s'))" for t
    using assms(2) by (simp add: si_getCharFiltered_def)
  then show ?thesis
    by (simp only:) (subst si_getCharFiltered_loop_line [OF assms(1)], simp)
qed

text \<open>
  C6. \<^verbatim>\<open>si_getCharFiltered\<close> called with a non-null, empty allow-set writes the
  configuration error and returns at once, reading nothing. The value it returns is 1,
  which is not \<open>EOF\<close>, the value the function's comment gives for an error.
\<close>

theorem C6_empty_allow_set_returns_one:
  "si_getCharFiltered (Some []) buffer n s =
     (Returns 1, s\<lparr>stderr := stderr s @ [''No allowed characters specified. Exiting.\<newline>'']\<rparr>) \<and>
   (1::int) \<noteq> EOF"
  by (simp add: si_getCharFiltered_def si_printError_def EOF_def)

section \<open>Strict conversion, negative input and overrun\<close>

lemmas conv_defs =
  strtol_def strtoll_def strtoul_def strtoull_def strto_signed_def strto_unsigned_def
  subject_def c_str_def NUL_def isspace_def isdigit_def digits_val_def digit_val_def
  LONG_MAX_def LONG_MIN_def LLONG_MAX_def LLONG_MIN_def ULONG_MAX_def ULLONG_MAX_def
  Let_def

lemma int_of_long_id: "int_of_long v = v \<longleftrightarrow> INT_MIN \<le> v \<and> v \<le> INT_MAX"
proof
  assume a: "int_of_long v = v"
  have "0 \<le> (v + 2 ^ 31) mod 2 ^ 32" "(v + 2 ^ 31) mod 2 ^ 32 < (2 ^ 32 :: int)"
    by simp_all
  with a show "INT_MIN \<le> v \<and> v \<le> INT_MAX"
    by (simp add: int_of_long_def INT_MIN_def INT_MAX_def)
next
  assume "INT_MIN \<le> v \<and> v \<le> INT_MAX"
  then have "(v + 2 ^ 31) mod 2 ^ 32 = v + 2 ^ 31"
    by (intro mod_pos_pos_trivial) (simp_all add: INT_MIN_def INT_MAX_def)
  then show "int_of_long v = v" by (simp add: int_of_long_def)
qed

lemma si_getInt_accepts:
  assumes "length buffer = 128" and "NL \<notin> set line" and "length line < 127"
    and "strtol line = (v, e, False)" and "0 < e" and "(line @ [NUL]) ! e = NUL"
    and "INT_MIN \<le> v" and "v \<le> INT_MAX"
  shows "si_getInt buffer n (s\<lparr>stdin := line @ NL # rest\<rparr>) = (v, s\<lparr>stdin := rest\<rparr>)"
proof -
  have "int_of_long v = v" using assms(7,8) by (simp add: int_of_long_id)
  then show ?thesis
    using si_getInt_line [OF assms(1), of n "s\<lparr>stdin := line @ NL # rest\<rparr>"] assms(3-6)
    unfolding line_state [OF assms(2)] by simp
qed

lemma si_getInt_rejects:
  assumes "length buffer = 128" and "NL \<notin> set line" and "length line < 127"
    and "strtol line = (v, e, er)"
    and "e = 0 \<or> (line @ [NUL]) ! e \<noteq> NUL \<or> er \<or> v < INT_MIN \<or> INT_MAX < v"
  shows "si_getInt buffer n (s\<lparr>stdin := line @ NL # rest\<rparr>) =
         si_getInt buffer n
           (s\<lparr>stdin := rest, stderr := stderr s @ [''Invalid input. Try again.\<newline>'']\<rparr>)"
proof -
  have "e = 0 \<or> (line @ [NUL]) ! e \<noteq> NUL \<or> er \<or> v \<noteq> int_of_long v"
    using assms(5) int_of_long_id [of v] by auto
  then show ?thesis
    using si_getInt_line [OF assms(1), of n "s\<lparr>stdin := line @ NL # rest\<rparr>"] assms(3,4)
    unfolding line_state [OF assms(2)] by (simp add: si_printError_def)
qed

lemma si_getInt_123:
  assumes "length buffer = 128"
  shows "si_getInt buffer n (s\<lparr>stdin := ''123'' @ NL # rest\<rparr>) = (123, s\<lparr>stdin := rest\<rparr>)"
  by (rule si_getInt_accepts [OF assms, where e = 3])
     (simp_all add: conv_defs NL_def INT_MIN_def INT_MAX_def)

lemma si_getInt_123abc:
  assumes "length buffer = 128"
  shows "si_getInt buffer n (s\<lparr>stdin := ''123abc'' @ NL # rest\<rparr>) =
         si_getInt buffer n
           (s\<lparr>stdin := rest, stderr := stderr s @ [''Invalid input. Try again.\<newline>'']\<rparr>)"
  by (rule si_getInt_rejects [OF assms, where e = 3 and v = 123 and er = False])
     (simp_all add: conv_defs NL_def)

lemma si_getInt_empty:
  assumes "length buffer = 128"
  shows "si_getInt buffer n (s\<lparr>stdin := NL # rest\<rparr>) =
         si_getInt buffer n
           (s\<lparr>stdin := rest, stderr := stderr s @ [''Invalid input. Try again.\<newline>'']\<rparr>)"
  using si_getInt_rejects [OF assms, where line = "[]" and e = 0 and v = 0 and er = False]
  by (simp add: conv_defs)

lemma si_getInt_max:
  assumes "length buffer = 128"
  shows "si_getInt buffer n (s\<lparr>stdin := ''2147483647'' @ NL # rest\<rparr>) = (INT_MAX, s\<lparr>stdin := rest\<rparr>)"
  unfolding INT_MAX_def
  by (rule si_getInt_accepts [OF assms, where e = 10])
     (simp_all add: conv_defs NL_def INT_MIN_def INT_MAX_def)

lemma isdigit_val: "isdigit d \<Longrightarrow> 0 \<le> digit_val d \<and> digit_val d \<le> 9"
  by (auto simp: isdigit_def digit_val_def)

lemma isdigit_not_NL: "isdigit d \<Longrightarrow> d \<noteq> NL"
  by (auto simp: isdigit_def NL_def)

lemma si_getInt_max_and_digit:
  assumes "length buffer = 128" and "isdigit d"
  shows "si_getInt buffer n (s\<lparr>stdin := (''2147483647'' @ [d]) @ NL # rest\<rparr>) =
         si_getInt buffer n
           (s\<lparr>stdin := rest, stderr := stderr s @ [''Invalid input. Try again.\<newline>'']\<rparr>)"
proof -
  have p: "strtol (''2147483647'' @ [d]) = (21474836470 + digit_val d, 11, False)"
    using assms(2) isdigit_val [OF assms(2)]
    by (simp add: strtol_def strto_signed_def subject_def c_str_def isspace_def digits_val_def
          LONG_MAX_def LONG_MIN_def Let_def)
       (auto simp: isdigit_def NUL_def digit_val_def)
  show ?thesis
    using isdigit_val [OF assms(2)] isdigit_not_NL [OF assms(2)]
    by (intro si_getInt_rejects [OF assms(1) _ _ p]) (simp_all add: NL_def INT_MAX_def)
qed

lemma si_getInt_unconsumed_suffix:
  assumes "length buffer = 128" and "NL \<notin> set line" and "length line < 127"
    and "NUL \<notin> set line" and "strtol line = (v, e, er)" and "e < length line"
  shows "si_getInt buffer n (s\<lparr>stdin := line @ NL # rest\<rparr>) =
         si_getInt buffer n
           (s\<lparr>stdin := rest, stderr := stderr s @ [''Invalid input. Try again.\<newline>'']\<rparr>)"
proof -
  have "(line @ [NUL]) ! e = line ! e" using assms(6) by (simp add: nth_append)
  moreover have "line ! e \<in> set line" using assms(6) by simp
  ultimately have "(line @ [NUL]) ! e \<noteq> NUL" using assms(4) by metis
  then show ?thesis
    by (intro si_getInt_rejects [OF assms(1-3) assms(5)]) simp
qed

text \<open>
  C5. \<^verbatim>\<open>si_getInt\<close> is meant to convert the whole line strictly. The lemmas above show
  it on the lines the claim names: \<open>123\<close> returns 123 (\<open>si_getInt_123\<close>); \<open>123abc\<close> and
  every line without a NUL byte that the conversion does not consume to its end are
  rejected and retried (\<open>si_getInt_123abc\<close>, \<open>si_getInt_unconsumed_suffix\<close>); so is the
  empty line (\<open>si_getInt_empty\<close>); \<open>2147483647\<close> returns \<open>INT_MAX\<close> (\<open>si_getInt_max\<close>)
  and with one more digit it is rejected (\<open>si_getInt_max_and_digit\<close>). The test
  \<^verbatim>\<open>*endptr != '\0'\<close> cannot tell the terminator written at \<^verbatim>\<open>buffer[len]\<close> from a NUL
  byte read from the stream, however: the six-byte line \<open>12\<close>, NUL, \<open>abc\<close> is accepted and
  returns 12, without a diagnostic, although the conversion left four bytes of the line
  unconsumed.
\<close>

theorem C5_embedded_nul_hides_suffix:
  assumes "length buffer = INPUT_BUFFER_SIZE"
  shows "si_getInt buffer n (s\<lparr>stdin := (''12'' @ NUL # ''abc'') @ NL # rest\<rparr>) =
         (12, s\<lparr>stdin := rest\<rparr>)"
proof -
  have b: "length buffer = 128" using assms by (simp add: INPUT_BUFFER_SIZE_def)
  show ?thesis
    by (rule si_getInt_accepts [OF b, where e = 2])
       (simp_all add: conv_defs NL_def INT_MIN_def INT_MAX_def)
qed

theorem C5_embedded_nul_hides_suffix_witness:
  "length (replicate 128 (CHR ''#'')) = INPUT_BUFFER_SIZE \<and>
   si_getInt (replicate 128 (CHR ''#'')) 0
     \<lparr>stdin = (''12'' @ NUL # ''abc'') @ NL # ''7'', stderr = [], malloc_ok = True\<rparr> =
     (12, \<lparr>stdin = ''7'', stderr = [], malloc_ok = True\<rparr>)"
  using C5_embedded_nul_hides_suffix [where buffer = "replicate 128 (CHR ''#'')" and n = 0
          and s = "\<lparr>stdin = [], stderr = [], malloc_ok = True\<rparr>" and rest = "''7''"]
  by (simp add: INPUT_BUFFER_SIZE_def)

lemma si_getUInt_negative:
  assumes "length buffer = 128" and "NL \<notin> set line" and "length line < 126"
  shows "si_getUInt buffer n (s\<lparr>stdin := (CHR ''-'' # line) @ NL # rest\<rparr>) =
         si_getUInt buffer n
           (s\<lparr>stdin := rest, stderr := stderr s @ [''Value can not be negative.\<newline>'']\<rparr>)"
proof -
  have l: "NL \<notin> set (CHR ''-'' # line)" using assms(2) by (simp add: NL_def)
  show ?thesis
    using si_getUInt_line [OF assms(1), of n "s\<lparr>stdin := (CHR ''-'' # line) @ NL # rest\<rparr>"]
      assms(3)
    unfolding line_state [OF l] by (simp add: si_printError_def split: prod.splits)
qed

text \<open>
  C4. \<^verbatim>\<open>si_getUInt\<close> rejects every line that begins with \<open>-\<close> with the diagnostic
  "Value can not be negative." before the generic validation (\<open>si_getUInt_negative\<close>).
  \<^verbatim>\<open>si_getULong\<close> and \<^verbatim>\<open>si_getULongLong\<close> have no such test: on the line \<open>-5\<close> the
  conversion negates 5 in the unsigned type, nothing is written to the diagnostic stream,
  and the accessor returns \<open>2 ^ 64 - 5\<close>.
\<close>

theorem C4_minus_five_accepted:
  assumes "length buffer = INPUT_BUFFER_SIZE"
  shows "si_getULong buffer n (s\<lparr>stdin := ''-5'' @ NL # rest\<rparr>) =
           (2 ^ 64 - 5, s\<lparr>stdin := rest\<rparr>) \<and>
         si_getULongLong buffer n (s\<lparr>stdin := ''-5'' @ NL # rest\<rparr>) =
           (2 ^ 64 - 5, s\<lparr>stdin := rest\<rparr>)"
proof -
  have b: "length buffer = 128" using assms by (simp add: INPUT_BUFFER_SIZE_def)
  have l: "NL \<notin> set ''-5''" by (simp add: NL_def)
  have p: "strtoul ''-5'' = (2 ^ 64 - 5, 2, False)" "strtoull ''-5'' = (2 ^ 64 - 5, 2, False)"
    by (simp_all add: conv_defs)
  show ?thesis
    using si_getULong_line [OF b, of n "s\<lparr>stdin := ''-5'' @ NL # rest\<rparr>"]
          si_getULongLong_line [OF b, of n "s\<lparr>stdin := ''-5'' @ NL # rest\<rparr>"]
    unfolding line_state [OF l] p by (simp add: NUL_def)
qed

theorem C4_minus_five_accepted_witness:
  "length (replicate 128 (CHR ''#'')) = INPUT_BUFFER_SIZE \<and>
   si_getULong (replicate 128 (CHR ''#'')) 0
     \<lparr>stdin = ''-5'' @ NL # ''7'', stderr = [], malloc_ok = True\<rparr> =
     (18446744073709551611, \<lparr>stdin = ''7'', stderr = [], malloc_ok = True\<rparr>) \<and>
   si_getULongLong (replicate 128 (CHR ''#'')) 0
     \<lparr>stdin = ''-5'' @ NL # ''7'', stderr = [], malloc_ok = True\<rparr> =
     (18446744073709551611, \<lparr>stdin = ''7'', stderr = [], malloc_ok = True\<rparr>)"
  using C4_minus_five_accepted [where buffer = "replicate 128 (CHR ''#'')" and n = 0
          and s = "\<lparr>stdin = [], stderr = [], malloc_ok = True\<rparr>" and rest = "''7''"]
  by (simp add: INPUT_BUFFER_SIZE_def)

lemma si_getFloat_overrun:
  assumes "length buffer = 128" and "stdin s \<noteq> []" and "127 \<le> length (cur_line s)"
  shows "si_getFloat strtof isfinite NAN buffer n s =
         (NAN, si_printError ''Input exceeding buffer size. Try again.\<newline>'' (next_line s))"
  using assms(2,3)
  by (subst si_getFloat.simps) (simp add: si_readByte_127 [OF assms(1)] INPUT_BUFFER_SIZE_def)

lemma si_getDouble_overrun:
  assumes "length buffer = 128" and "stdin s \<noteq> []" and "127 \<le> length (cur_line s)"
  shows "si_getDouble strtod isfinite NAN buffer n s =
         (NAN, si_printError ''Input exceeding buffer size. Try again.\<newline>'' (next_line s))"
  using assms(2,3)
  by (subst si_getDouble.simps) (simp add: si_readByte_127 [OF assms(1)] INPUT_BUFFER_SIZE_def)

lemma overrun_by_design:
  assumes c: "length cbuf = 4" and b: "length buffer = 128" and a: "allowed \<noteq> []"
    and t: "stdin t \<noteq> []"
    and t': "t' = si_printError ''Input exceeding buffer size. Try again.\<newline>'' (next_line t)"
  shows "(3 \<le> length (cur_line t) \<longrightarrow>
            si_getChar cbuf n t = si_getChar cbuf n t' \<and>
            si_getCharFiltered (Some allowed) cbuf n t = si_getCharFiltered (Some allowed) cbuf n t' \<and>
            si_getBool cbuf n t = si_getBool cbuf n t') \<and>
         (127 \<le> length (cur_line t) \<longrightarrow> si_getCString buffer n t = (None, t')) \<and>
         (128 \<le> length (cur_line t) \<longrightarrow> si_getString buffer n t = (\<lparr>data = None, len = 0\<rparr>, t'))"
proof -
  have chars: "si_getChar cbuf n t = si_getChar cbuf n t' \<and>
      si_getCharFiltered (Some allowed) cbuf n t = si_getCharFiltered (Some allowed) cbuf n t' \<and>
      si_getBool cbuf n t = si_getBool cbuf n t'"
    if "3 \<le> length (cur_line t)"
  proof -
    have ne: "cur_line t \<noteq> []" "length (cur_line t) \<noteq> 1" "\<not> length (cur_line t) < 3"
      "length (cur_line t) \<noteq> Suc 0" "\<not> length (cur_line t) \<le> 1" "\<not> length (cur_line t) \<le> Suc 0"
      "cur_line t \<noteq> ''Y''" "cur_line t \<noteq> ''y''" "cur_line t \<noteq> ''N''" "cur_line t \<noteq> ''n''"
      using that by auto
    have 1: "si_getChar cbuf n t = si_getChar cbuf n t'"
      using si_getChar_line [OF c, of n t] that t by (simp add: t' ne)
    have 2: "si_getCharFiltered (Some allowed) cbuf n t = si_getCharFiltered (Some allowed) cbuf n t'"
      using si_getCharFiltered_line [OF c a, of n t] that t by (simp add: t' ne)
    have 3: "si_getBool cbuf n t = si_getBool cbuf n t'"
      using si_getBool_line [OF c, of n t] that t by (simp add: t' ne)
    from 1 2 3 show ?thesis by blast
  qed
  have cs: "si_getCString buffer n t = (None, t')" if "127 \<le> length (cur_line t)"
    using si_getCString_line [OF b, of n t] that t by (simp add: t')
  have str: "si_getString buffer n t = (\<lparr>data = None, len = 0\<rparr>, t')" if "128 \<le> length (cur_line t)"
    using si_getString_line [OF b, of n t] that t by (simp add: t')
  show ?thesis using chars cs str by blast
qed

text \<open>
  On an overrun the integer and floating-point accessors do not reach their retry: the
  test of the line reader's result returns the failure value for every result other than
  0. The statement on overruns that follows leaves these accessors out.
\<close>

lemma numeric_overrun:
  assumes b: "length buffer = 128" and t: "stdin t \<noteq> []" and l: "127 \<le> length (cur_line t)"
    and t': "t' = si_printError ''Input exceeding buffer size. Try again.\<newline>'' (next_line t)"
  shows "si_getInt buffer n t = (INT_MIN, t')"
    and "si_getUInt buffer n t = (UINT_MAX, t')"
    and "si_getFloat strtof isfinite NAN buffer n t = (NAN, t')"
    and "si_getDouble strtod isfinite NAN buffer n t = (NAN, t')"
    and "si_getLong buffer n t = (LONG_MIN, t')"
    and "si_getULong buffer n t = (ULONG_MAX, t')"
    and "si_getLongLong buffer n t = (LLONG_MIN, t')"
    and "si_getULongLong buffer n t = (ULLONG_MAX, t')"
proof -
  show "si_getInt buffer n t = (INT_MIN, t')"
    using si_getInt_line [OF b, of n t] t l by (simp add: t')
  show "si_getUInt buffer n t = (UINT_MAX, t')"
    using si_getUInt_line [OF b, of n t] t l by (simp add: t')
  show "si_getFloat strtof isfinite NAN buffer n t = (NAN, t')"
    using si_getFloat_overrun [OF b t l] by (simp add: t')
  show "si_getDouble strtod isfinite NAN buffer n t = (NAN, t')"
    using si_getDouble_overrun [OF b t l] by (simp add: t')
  show "si_getLong buffer n t = (LONG_MIN, t')"
    using si_getLong_line [OF b, of n t] t l by (simp add: t')
  show "si_getULong buffer n t = (ULONG_MAX, t')"
    using si_getULong_line [OF b, of n t] t l by (simp add: t')
  show "si_getLongLong buffer n t = (LLONG_MIN, t')"
    using si_getLongLong_line [OF b, of n t] t l by (simp add: t')
  show "si_getULongLong buffer n t = (ULLONG_MAX, t')"
    using si_getULongLong_line [OF b, of n t] t l by (simp add: t')
qed

text \<open>
  C2, as the code is designed. Let the first line of the input, ended by a newline or
  by the end of the stream, be too long for the accessor's capacity, so that the line
  reader reports the overrun, discards the rest of the line and returns 1.
  \<^verbatim>\<open>si_getChar\<close>, \<^verbatim>\<open>si_getCharFiltered\<close> (with a non-empty allow-set) and \<^verbatim>\<open>si_getBool\<close>
  then go on with the next line: the call behaves as the same call on the rest of the
  stream, with the diagnostic written, and the overrun is not surfaced to the caller.
  \<^verbatim>\<open>si_getCString\<close> and \<^verbatim>\<open>si_getString\<close> have no retry loop: they return the null
  pointer and the null \<open>si_string\<close>, with the rest of the stream unread.
\<close>

theorem C2_overrun_retry_or_sentinel:
  assumes "length cbuf = CHAR_INPUT_BUFFER_SIZE" and "length buffer = INPUT_BUFFER_SIZE"
    and "NL \<notin> set line" and "allowed \<noteq> []"
    and "input = line @ NL # rest \<or> input = line \<and> rest = []"
    and "s' = s\<lparr>stdin := rest,
                 stderr := stderr s @ [''Input exceeding buffer size. Try again.\<newline>'']\<rparr>"
  shows "(CHAR_INPUT_BUFFER_SIZE - 1 \<le> length line \<longrightarrow>
            si_getChar cbuf n (s\<lparr>stdin := input\<rparr>) = si_getChar cbuf n s' \<and>
            si_getCharFiltered (Some allowed) cbuf n (s\<lparr>stdin := input\<rparr>) =
              si_getCharFiltered (Some allowed) cbuf n s' \<and>
            si_getBool cbuf n (s\<lparr>stdin := input\<rparr>) = si_getBool cbuf n s') \<and>
         (INPUT_BUFFER_SIZE - 1 \<le> length line \<longrightarrow>
            si_getCString buffer n (s\<lparr>stdin := input\<rparr>) = (None, s')) \<and>
         (INPUT_BUFFER_SIZE \<le> length line \<longrightarrow>
            si_getString buffer n (s\<lparr>stdin := input\<rparr>) = (\<lparr>data = None, len = 0\<rparr>, s'))"
proof (cases "line = []")
  case True
  then show ?thesis by (simp add: CHAR_INPUT_BUFFER_SIZE_def INPUT_BUFFER_SIZE_def)
next
  case False
  let ?t = "s\<lparr>stdin := input\<rparr>"
  have c: "length cbuf = 4" using assms(1) by (simp add: CHAR_INPUT_BUFFER_SIZE_def)
  have b: "length buffer = 128" using assms(2) by (simp add: INPUT_BUFFER_SIZE_def)
  have st: "stdin ?t \<noteq> [] \<and> cur_line ?t = line \<and> next_line ?t = s\<lparr>stdin := rest\<rparr>"
    using assms(5)
  proof
    assume "input = line @ NL # rest"
    then show ?thesis using line_state [OF assms(3), where s = s and rest = rest] by simp
  next
    assume "input = line \<and> rest = []"
    then show ?thesis using line_state_eof [OF assms(3) False, where s = s] by simp
  qed
  have s': "s' = si_printError ''Input exceeding buffer size. Try again.\<newline>'' (next_line ?t)"
    using st by (simp add: assms(6) si_printError_def)
  from overrun_by_design [OF c b assms(4) _ s', of n] st
  show ?thesis by (simp add: CHAR_INPUT_BUFFER_SIZE_def INPUT_BUFFER_SIZE_def)
qed

theorem C2_overrun_retry_or_sentinel_witness:
  "length ''wxyz'' = CHAR_INPUT_BUFFER_SIZE \<and>
   length (replicate 128 (CHR ''#'')) = INPUT_BUFFER_SIZE \<and>
   NL \<notin> set (replicate 128 (CHR ''a'')) \<and> ''abc'' \<noteq> [] \<and>
   CHAR_INPUT_BUFFER_SIZE - 1 \<le> length (replicate 128 (CHR ''a'')) \<and>
   INPUT_BUFFER_SIZE - 1 \<le> length (replicate 128 (CHR ''a'')) \<and>
   INPUT_BUFFER_SIZE \<le> length (replicate 128 (CHR ''a'')) \<and>
   si_getChar ''wxyz'' 0
     \<lparr>stdin = replicate 128 (CHR ''a'') @ NL # ''5'', stderr = [], malloc_ok = True\<rparr> =
   si_getChar ''wxyz'' 0
     \<lparr>stdin = ''5'', stderr = [''Input exceeding buffer size. Try again.\<newline>''],
      malloc_ok = True\<rparr> \<and>
   si_getCharFiltered (Some ''abc'') ''wxyz'' 0
     \<lparr>stdin = replicate 128 (CHR ''a''), stderr = [], malloc_ok = True\<rparr> =
   si_getCharFiltered (Some ''abc'') ''wxyz'' 0
     \<lparr>stdin = [], stderr = [''Input exceeding buffer size. Try again.\<newline>''],
      malloc_ok = True\<rparr> \<and>
   si_getBool ''wxyz'' 0
     \<lparr>stdin = replicate 128 (CHR ''a'') @ NL # ''5'', stderr = [], malloc_ok = True\<rparr> =
   si_getBool ''wxyz'' 0
     \<lparr>stdin = ''5'', stderr = [''Input exceeding buffer size. Try again.\<newline>''],
      malloc_ok = True\<rparr> \<and>
   si_getCString (replicate 128 (CHR ''#'')) 0
     \<lparr>stdin = replicate 128 (CHR ''a''), stderr = [], malloc_ok = True\<rparr> =
     (None,
      \<lparr>stdin = [], stderr = [''Input exceeding buffer size. Try again.\<newline>''],
       malloc_ok = True\<rparr>) \<and>
   si_getString (replicate 128 (CHR ''#'')) 0
     \<lparr>stdin = replicate 128 (CHR ''a'') @ NL # ''5'', stderr = [], malloc_ok = True\<rparr> =
     (\<lparr>data = None, len = 0\<rparr>,
      \<lparr>stdin = ''5'', stderr = [''Input exceeding buffer size. Try again.\<newline>''],
       malloc_ok = True\<rparr>)"
  using C2_overrun_retry_or_sentinel [where cbuf = "''wxyz''"
          and buffer = "replicate 128 (CHR ''#'')" and line = "replicate 128 (CHR ''a'')"
          and allowed = "''abc''" and n = 0
          and input = "replicate 128 (CHR ''a'') @ NL # ''5''"
          and s = "\<lparr>stdin = [], stderr = [], malloc_ok = True\<rparr>" and rest = "''5''"
          and s' = "\<lparr>stdin = ''5'',
                     stderr = [''Input exceeding buffer size. Try again.\<newline>''],
                     malloc_ok = True\<rparr>"]
        C2_overrun_retry_or_sentinel [where cbuf = "''wxyz''"
          and buffer = "replicate 128 (CHR ''#'')" and line = "replicate 128 (CHR ''a'')"
          and allowed = "''abc''" and n = 0
          and input = "replicate 128 (CHR ''a'')"
          and s = "\<lparr>stdin = [], stderr = [], malloc_ok = True\<rparr>" and rest = "[]"
          and s' = "\<lparr>stdin = [],
                     stderr = [''Input exceeding buffer size. Try again.\<newline>''],
                     malloc_ok = True\<rparr>"]
  by (simp add: INPUT_BUFFER_SIZE_def CHAR_INPUT_BUFFER_SIZE_def NL_def)

text \<open>
  The claim C2 as it is written fails for the string accessors: on a line of 128 bytes
  followed by the line \<open>5\<close>, \<^verbatim>\<open>si_getCString\<close> returns the null pointer and
  \<^verbatim>\<open>si_getString\<close> the null \<open>si_string\<close>, and the line \<open>5\<close> is still unread.
\<close>

theorem C2_overrun_surfaces_as_sentinel:
  "si_getCString (replicate 128 NUL) 0
     \<lparr>stdin = replicate 128 (CHR ''a'') @ NL # ''5'' @ [NL], stderr = [], malloc_ok = True\<rparr> =
     (None,
      \<lparr>stdin = ''5'' @ [NL], stderr = [''Input exceeding buffer size. Try again.\<newline>''],
       malloc_ok = True\<rparr>) \<and>
   si_getString (replicate 128 NUL) 0
     \<lparr>stdin = replicate 128 (CHR ''a'') @ NL # ''5'' @ [NL], stderr = [], malloc_ok = True\<rparr> =
     (\<lparr>data = None, len = 0\<rparr>,
      \<lparr>stdin = ''5'' @ [NL], stderr = [''Input exceeding buffer size. Try again.\<newline>''],
       malloc_ok = True\<rparr>)"
proof -
  have l: "NL \<notin> set (replicate 128 (CHR ''a''))" by (simp add: NL_def)
  show ?thesis
    using si_getCString_line [of "replicate 128 NUL" 0
        "\<lparr>stdin = [], stderr = [], malloc_ok = True\<rparr>\<lparr>stdin := replicate 128 (CHR ''a'') @ NL # ''5'' @ [NL]\<rparr>"]
      si_getString_line [of "replicate 128 NUL" 0
        "\<lparr>stdin = [], stderr = [], malloc_ok = True\<rparr>\<lparr>stdin := replicate 128 (CHR ''a'') @ NL # ''5'' @ [NL]\<rparr>"]
    unfolding line_state [OF l] by (simp add: si_printError_def)
qed

end
